theory Spec2Isabelle
  imports Main "HOL-Library.Word"
begin

unbundle bit_operations_syntax

section \<open>Data model (threads/thread.h)\<close>

type_synonym addr = "64 word"
type_synonym tid_t = "32 word"

text \<open>The four life-cycle states of \<^verbatim>\<open>enum thread_status\<close>, in declaration order
  (a zeroed page therefore reads as \<^verbatim>\<open>THREAD_RUNNING\<close>).\<close>

datatype thread_status = THREAD_RUNNING | THREAD_READY | THREAD_BLOCKED | THREAD_DYING

datatype intr_level = INTR_OFF | INTR_ON

text \<open>Code addresses stored in a saved program counter. The two places of the kernel
  text that the scheduler writes there are kept symbolic: the entry of the trampoline
  \<^verbatim>\<open>kernel_thread\<close> and the label \<^verbatim>\<open>out_iret\<close> inside \<^verbatim>\<open>thread_launch\<close>.\<close>

datatype code_addr = Fn_kernel_thread | Label_out_iret | Code_at "64 word"

text \<open>\<^verbatim>\<open>struct intr_frame\<close>, as \<^verbatim>\<open>do_iret\<close> and \<^verbatim>\<open>thread_launch\<close> lay it out:
  fifteen general registers, the segment selectors, and the frame that \<^verbatim>\<open>iretq\<close> pops.\<close>

record gp_registers =
  r15 :: "64 word"
  r14 :: "64 word"
  r13 :: "64 word"
  r12 :: "64 word"
  r11 :: "64 word"
  r10 :: "64 word"
  r9 :: "64 word"
  r8 :: "64 word"
  rsi :: "64 word"
  rdi :: "64 word"
  rbp :: "64 word"
  rdx :: "64 word"
  rcx :: "64 word"
  rbx :: "64 word"
  rax :: "64 word"

record intr_frame =
  R :: gp_registers
  es :: "16 word"
  ds :: "16 word"
  rip :: code_addr
  cs :: "16 word"
  eflags :: "64 word"
  rsp :: "64 word"
  ss :: "16 word"

text \<open>\<^verbatim>\<open>struct thread\<close>. The list element \<^verbatim>\<open>elem\<close> is represented by the position of
  the thread's address in the queues of the scheduler state.\<close>

record thread =
  tid :: tid_t
  status :: thread_status
  name :: string
  priority :: int
  wakeup_ticks :: "64 word"
  tf :: intr_frame
  magic :: "32 word"

definition NULL :: addr where
  "NULL = 0"

definition TID_ERROR :: tid_t where
  "TID_ERROR = - 1"

definition PRI_MIN :: int where
  "PRI_MIN = 0"

definition PRI_DEFAULT :: int where
  "PRI_DEFAULT = 31"

definition PRI_MAX :: int where
  "PRI_MAX = 63"

definition THREAD_MAGIC :: "32 word" where
  "THREAD_MAGIC = 0xcd6abf4b"

definition TIME_SLICE :: "32 word" where
  "TIME_SLICE = 4"

text \<open>Constants of headers outside the sources: the interrupt flag of the x86 flags
  register, the page size (thread.h documents 4 kB pages), and the kernel selectors that
  index entries 1 and 2 of the \<^verbatim>\<open>gdt\<close> array of thread.c.\<close>

definition FLAG_IF :: "64 word" where
  "FLAG_IF = 0x200"

definition PGSIZE :: "64 word" where
  "PGSIZE = 4096"

definition SEL_KCSEG :: "16 word" where
  "SEL_KCSEG = 0x08"

definition SEL_KDSEG :: "16 word" where
  "SEL_KDSEG = 0x10"

section \<open>Scheduler state\<close>

text \<open>Kernel halts: a failed \<^verbatim>\<open>ASSERT\<close> (with the asserted expression) and
  \<^verbatim>\<open>NOT_REACHED\<close>.\<close>

datatype halt = ASSERT_failed string | NOT_REACHED

text \<open>The module statics of thread.c and timer.c, the memory holding thread structures
  (one per page address; memory never allocated holds arbitrary contents), the processor's
  registers, the page that holds the stack pointer (\<^verbatim>\<open>running_thread ()\<close>), the two flags
  of the interrupt layer, and the page pool with the log of calls to
  \<^verbatim>\<open>palloc_free_page\<close>.\<close>

record sched =
  mem :: "addr \<Rightarrow> thread"
  ready_list :: "addr list"
  sleep_list :: "addr list"
  destruction_req :: "addr list"
  idle_thread :: addr
  initial_thread :: addr
  tid_lock :: addr
  next_tid :: tid_t
  idle_ticks :: "64 word"
  kernel_ticks :: "64 word"
  user_ticks :: "64 word"
  thread_ticks :: "32 word"
  ticks :: "64 word"
  cur :: addr
  cpu :: intr_frame
  in_external_intr :: bool
  yield_on_return :: bool
  free_pages :: "addr list"
  freed :: "addr list"

subsection \<open>Field access through a thread pointer\<close>

definition t_status :: "sched \<Rightarrow> addr \<Rightarrow> thread_status" where
  "t_status s t = status (mem s t)"

definition set_status :: "addr \<Rightarrow> thread_status \<Rightarrow> sched \<Rightarrow> sched" where
  "set_status t st s = s\<lparr>mem := (mem s)(t := (mem s t)\<lparr>status := st\<rparr>)\<rparr>"

definition is_thread :: "sched \<Rightarrow> addr \<Rightarrow> bool" where
  "is_thread s t \<longleftrightarrow> t \<noteq> NULL \<and> magic (mem s t) = THREAD_MAGIC"

definition running_thread :: "sched \<Rightarrow> addr" where
  "running_thread s = cur s"

subsection \<open>The interrupt layer (threads/interrupt.c), by its contract\<close>

text \<open>The interrupt level is the interrupt flag of the flags register; disabling clears
  it, enabling sets it. \<^verbatim>\<open>intr_yield_on_return\<close> only records the request, which the
  interrupt-return path reads later.\<close>

definition intr_get_level :: "sched \<Rightarrow> intr_level" where
  "intr_get_level s = (if eflags (cpu s) AND FLAG_IF = 0 then INTR_OFF else INTR_ON)"

definition intr_enable :: "sched \<Rightarrow> sched" where
  "intr_enable s = s\<lparr>cpu := (cpu s)\<lparr>eflags := eflags (cpu s) OR FLAG_IF\<rparr>\<rparr>"

definition intr_disable :: "sched \<Rightarrow> sched" where
  "intr_disable s = s\<lparr>cpu := (cpu s)\<lparr>eflags := eflags (cpu s) AND NOT FLAG_IF\<rparr>\<rparr>"

definition intr_set_level :: "intr_level \<Rightarrow> sched \<Rightarrow> sched" where
  "intr_set_level l s = (if l = INTR_ON then intr_enable s else intr_disable s)"

definition intr_context :: "sched \<Rightarrow> bool" where
  "intr_context s = in_external_intr s"

definition intr_yield_on_return :: "sched \<Rightarrow> sched" where
  "intr_yield_on_return s = s\<lparr>yield_on_return := True\<rparr>"

section \<open>thread.c\<close>

definition thread_current :: "sched \<Rightarrow> halt + addr" where
  "thread_current s =
     (let t = running_thread s in
      if \<not> is_thread s t then Inl (ASSERT_failed ''is_thread (t)'')
      else if t_status s t \<noteq> THREAD_RUNNING
        then Inl (ASSERT_failed ''t->status == THREAD_RUNNING'')
      else Inr t)"

text \<open>\<^verbatim>\<open>thread_tick\<close>, built without \<^verbatim>\<open>USERPROG\<close>: the statistics branch is idle or
  kernel. The counter is \<^verbatim>\<open>unsigned\<close>, so the pre-increment wraps at \<open>2 ^ 32\<close>.\<close>

definition thread_tick :: "sched \<Rightarrow> halt + sched" where
  "thread_tick s =
     (case thread_current s of
        Inl e \<Rightarrow> Inl e
      | Inr t \<Rightarrow>
          (let s1 = (if t = idle_thread s then s\<lparr>idle_ticks := idle_ticks s + 1\<rparr>
                     else s\<lparr>kernel_ticks := kernel_ticks s + 1\<rparr>);
               s2 = s1\<lparr>thread_ticks := thread_ticks s1 + 1\<rparr>
           in if thread_ticks s2 \<ge> TIME_SLICE then Inr (intr_yield_on_return s2)
              else Inr s2))"

text \<open>\<^verbatim>\<open>thread_unblock\<close>, statement by statement. The body is run on the state and the
  state after each of the four statements that write to it is recorded, in program order:
  after \<^verbatim>\<open>intr_disable\<close>, after \<^verbatim>\<open>list_push_back\<close>, after the write to
  \<^verbatim>\<open>t->status\<close> and after \<^verbatim>\<open>intr_set_level\<close>. The two assertions read the state
  (the second one after interrupts have been disabled) and halt the run when they fail.
  The state in which \<^verbatim>\<open>thread_unblock\<close> returns is the last one recorded.\<close>

definition thread_unblock_trace :: "addr \<Rightarrow> sched \<Rightarrow> halt + sched list" where
  "thread_unblock_trace t s =
     (if \<not> is_thread s t then Inl (ASSERT_failed ''is_thread (t)'')
      else
        (let old_level = intr_get_level s;
             s1 = intr_disable s
         in if t_status s1 t \<noteq> THREAD_BLOCKED
              then Inl (ASSERT_failed ''t->status == THREAD_BLOCKED'')
            else
              (let s2 = s1\<lparr>ready_list := ready_list s1 @ [t]\<rparr>;
                   s3 = set_status t THREAD_READY s2;
                   s4 = intr_set_level old_level s3
               in Inr [s1, s2, s3, s4])))"

definition thread_unblock :: "addr \<Rightarrow> sched \<Rightarrow> halt + sched" where
  "thread_unblock t s =
     (case thread_unblock_trace t s of
        Inl e \<Rightarrow> Inl e
      | Inr states \<Rightarrow> Inr (last states))"

text \<open>\<^verbatim>\<open>next_thread_to_run\<close> returns the chosen thread together with the state, from
  whose ready list the chosen element has been popped.\<close>

definition next_thread_to_run :: "sched \<Rightarrow> addr \<times> sched" where
  "next_thread_to_run s =
     (case ready_list s of
        [] \<Rightarrow> (idle_thread s, s)
      | t # ts \<Rightarrow> (t, s\<lparr>ready_list := ts\<rparr>))"

subsection \<open>The page pool (threads/palloc.c), by its contract\<close>

text \<open>\<^verbatim>\<open>palloc_get_page (PAL_ZERO)\<close> hands out a zero-filled page, or the null pointer when
  the pool is exhausted; \<^verbatim>\<open>palloc_free_page\<close> returns a page to the pool. Every call of
  the latter is appended to the log \<open>freed\<close>.\<close>

definition zero_regs :: gp_registers where
  "zero_regs = \<lparr>r15 = 0, r14 = 0, r13 = 0, r12 = 0, r11 = 0, r10 = 0, r9 = 0, r8 = 0,
     rsi = 0, rdi = 0, rbp = 0, rdx = 0, rcx = 0, rbx = 0, rax = 0\<rparr>"

definition zero_frame :: intr_frame where
  "zero_frame = \<lparr>R = zero_regs, es = 0, ds = 0, rip = Code_at 0, cs = 0, eflags = 0,
     rsp = 0, ss = 0\<rparr>"

definition zero_thread :: thread where
  "zero_thread = \<lparr>tid = 0, status = THREAD_RUNNING, name = [], priority = 0,
     wakeup_ticks = 0, tf = zero_frame, magic = 0\<rparr>"

definition palloc_get_page :: "sched \<Rightarrow> addr \<times> sched" where
  "palloc_get_page s =
     (case free_pages s of
        [] \<Rightarrow> (NULL, s)
      | p # ps \<Rightarrow> (p, s\<lparr>free_pages := ps, mem := (mem s)(p := zero_thread)\<rparr>))"

definition palloc_free_page :: "addr \<Rightarrow> sched \<Rightarrow> sched" where
  "palloc_free_page p s = s\<lparr>free_pages := free_pages s @ [p], freed := freed s @ [p]\<rparr>"

subsection \<open>The lock guarding thread identities (threads/synch.c), by its contract\<close>

text \<open>Every operation of this model runs to completion, so the lock is free whenever
  \<^verbatim>\<open>allocate_tid\<close> is entered: acquiring records the holder, releasing clears it.\<close>

definition lock_acquire :: "sched \<Rightarrow> sched" where
  "lock_acquire s = s\<lparr>tid_lock := running_thread s\<rparr>"

definition lock_release :: "sched \<Rightarrow> sched" where
  "lock_release s = s\<lparr>tid_lock := NULL\<rparr>"

subsection \<open>Creation\<close>

text \<open>\<^verbatim>\<open>tid = next_tid++\<close> on a 32-bit \<^verbatim>\<open>int\<close>: the increment is modelled with the
  two's-complement wrap-around of the target machine.\<close>

definition allocate_tid :: "sched \<Rightarrow> tid_t \<times> sched" where
  "allocate_tid s =
     (let s1 = lock_acquire s;
          tid = next_tid s1;
          s2 = s1\<lparr>next_tid := next_tid s1 + 1\<rparr>;
          s3 = lock_release s2
      in (tid, s3))"

text \<open>\<^verbatim>\<open>strlcpy\<close> into \<^verbatim>\<open>char name[16]\<close> keeps at most 15 characters.\<close>

definition init_thread :: "addr \<Rightarrow> string \<Rightarrow> int \<Rightarrow> sched \<Rightarrow> halt + sched" where
  "init_thread t nm prio s =
     (if t = NULL then Inl (ASSERT_failed ''t != NULL'')
      else if \<not> (PRI_MIN \<le> prio \<and> prio \<le> PRI_MAX)
        then Inl (ASSERT_failed ''PRI_MIN <= priority && priority <= PRI_MAX'')
      else
        (let th0 = zero_thread;
             th1 = th0\<lparr>status := THREAD_BLOCKED\<rparr>;
             th2 = th1\<lparr>name := take 15 nm\<rparr>;
             th3 = th2\<lparr>tf := (tf th2)\<lparr>rsp := t + PGSIZE - 8\<rparr>\<rparr>;
             th4 = th3\<lparr>priority := prio\<rparr>;
             th5 = th4\<lparr>magic := THREAD_MAGIC\<rparr>
         in Inr (s\<lparr>mem := (mem s)(t := th5)\<rparr>)))"

definition thread_create ::
  "string \<Rightarrow> int \<Rightarrow> 64 word \<Rightarrow> 64 word \<Rightarrow> sched \<Rightarrow> halt + (tid_t \<times> sched)" where
  "thread_create nm prio function aux s =
     (if function = 0 then Inl (ASSERT_failed ''function != NULL'')
      else
        (case palloc_get_page s of (t, s1) \<Rightarrow>
           if t = NULL then Inr (TID_ERROR, s1)
           else
             (case init_thread t nm prio s1 of
                Inl e \<Rightarrow> Inl e
              | Inr s2 \<Rightarrow>
                  (case allocate_tid s2 of (new_tid, s3) \<Rightarrow>
                     (let th = (mem s3 t)\<lparr>tid := new_tid\<rparr>;
                          f1 = (tf th)\<lparr>rip := Fn_kernel_thread\<rparr>;
                          f2 = f1\<lparr>R := (R f1)\<lparr>rdi := function\<rparr>\<rparr>;
                          f3 = f2\<lparr>R := (R f2)\<lparr>rsi := aux\<rparr>\<rparr>;
                          f4 = f3\<lparr>ds := SEL_KDSEG\<rparr>;
                          f5 = f4\<lparr>es := SEL_KDSEG\<rparr>;
                          f6 = f5\<lparr>ss := SEL_KDSEG\<rparr>;
                          f7 = f6\<lparr>cs := SEL_KCSEG\<rparr>;
                          f8 = f7\<lparr>eflags := FLAG_IF\<rparr>;
                          s4 = s3\<lparr>mem := (mem s3)(t := th\<lparr>tf := f8\<rparr>)\<rparr>
                      in (case thread_unblock t s4 of
                            Inl e \<Rightarrow> Inl e
                          | Inr s5 \<Rightarrow> Inr (new_tid, s5)))))))"

subsection \<open>The context switch\<close>

text \<open>\<^verbatim>\<open>do_iret\<close> loads every register of the frame, the flags among them.\<close>

definition do_iret :: "intr_frame \<Rightarrow> sched \<Rightarrow> sched" where
  "do_iret f s = s\<lparr>cpu := f\<rparr>"

text \<open>\<^verbatim>\<open>thread_launch\<close> stores the registers in the outgoing thread's frame, with the
  label \<^verbatim>\<open>out_iret\<close> as the place to resume, and enters the incoming thread through
  \<^verbatim>\<open>do_iret\<close>. From then on the stack pointer lies in the incoming thread's page, which
  is what \<^verbatim>\<open>running_thread ()\<close> reads: the model moves \<open>cur\<close> with it.\<close>

definition thread_launch :: "addr \<Rightarrow> sched \<Rightarrow> halt + sched" where
  "thread_launch th s =
     (let tf_cur = running_thread s in
      if intr_get_level s \<noteq> INTR_OFF
        then Inl (ASSERT_failed ''intr_get_level () == INTR_OFF'')
      else
        (let saved = (cpu s)\<lparr>rip := Label_out_iret\<rparr>;
             s1 = s\<lparr>mem := (mem s)(tf_cur := (mem s tf_cur)\<lparr>tf := saved\<rparr>)\<rparr>
         in Inr (do_iret (tf (mem s1 th)) (s1\<lparr>cur := th\<rparr>))))"

definition schedule :: "sched \<Rightarrow> halt + sched" where
  "schedule s =
     (let curr = running_thread s in
      case next_thread_to_run s of (next, s1) \<Rightarrow>
        if intr_get_level s1 \<noteq> INTR_OFF
          then Inl (ASSERT_failed ''intr_get_level () == INTR_OFF'')
        else if t_status s1 curr = THREAD_RUNNING
          then Inl (ASSERT_failed ''curr->status != THREAD_RUNNING'')
        else if \<not> is_thread s1 next then Inl (ASSERT_failed ''is_thread (next)'')
        else
          (let s2 = set_status next THREAD_RUNNING s1;
               s3 = s2\<lparr>thread_ticks := 0\<rparr>
           in if curr \<noteq> next then
                (let s4 = (if curr \<noteq> NULL \<and> t_status s3 curr = THREAD_DYING
                              \<and> curr \<noteq> initial_thread s3
                           then s3\<lparr>destruction_req := destruction_req s3 @ [curr]\<rparr>
                           else s3)
                 in thread_launch next s4)
              else Inr s3))"

text \<open>The loop of \<^verbatim>\<open>do_schedule\<close> that empties the destruction queue: pop the front,
  free its page, repeat.\<close>

fun destroy_all :: "addr list \<Rightarrow> sched \<Rightarrow> sched" where
  "destroy_all [] s = s\<lparr>destruction_req := []\<rparr>"
| "destroy_all (victim # rest) s =
     destroy_all rest (palloc_free_page victim (s\<lparr>destruction_req := rest\<rparr>))"

definition do_schedule :: "thread_status \<Rightarrow> sched \<Rightarrow> halt + sched" where
  "do_schedule st s =
     (if intr_get_level s \<noteq> INTR_OFF
        then Inl (ASSERT_failed ''intr_get_level () == INTR_OFF'')
      else
        (case thread_current s of
           Inl e \<Rightarrow> Inl e
         | Inr _ \<Rightarrow>
             (let s1 = destroy_all (destruction_req s) s in
              case thread_current s1 of
                Inl e \<Rightarrow> Inl e
              | Inr c \<Rightarrow> schedule (set_status c st s1))))"

subsection \<open>Life-cycle operations\<close>

text \<open>An operation that ends in a context switch is modelled up to the switch: the
  statements that follow the call of \<^verbatim>\<open>schedule\<close> run only when the caller is resumed.
  They are applied here when no switch took place.\<close>

definition thread_block :: "sched \<Rightarrow> halt + sched" where
  "thread_block s =
     (if intr_context s then Inl (ASSERT_failed ''!intr_context ()'')
      else if intr_get_level s \<noteq> INTR_OFF
        then Inl (ASSERT_failed ''intr_get_level () == INTR_OFF'')
      else
        (case thread_current s of
           Inl e \<Rightarrow> Inl e
         | Inr c \<Rightarrow> schedule (set_status c THREAD_BLOCKED s)))"

definition thread_exit :: "sched \<Rightarrow> halt + sched" where
  "thread_exit s =
     (if intr_context s then Inl (ASSERT_failed ''!intr_context ()'')
      else
        (case do_schedule THREAD_DYING (intr_disable s) of
           Inl e \<Rightarrow> Inl e
         | Inr s1 \<Rightarrow> if cur s1 = cur s then Inl NOT_REACHED else Inr s1))"

definition thread_yield :: "sched \<Rightarrow> halt + sched" where
  "thread_yield s =
     (case thread_current s of
        Inl e \<Rightarrow> Inl e
      | Inr c \<Rightarrow>
          if intr_context s then Inl (ASSERT_failed ''!intr_context ()'')
          else
            (let old_level = intr_get_level s;
                 s1 = intr_disable s;
                 s2 = (if c \<noteq> idle_thread s1
                       then s1\<lparr>ready_list := ready_list s1 @ [c]\<rparr> else s1)
             in case do_schedule THREAD_READY s2 of
                  Inl e \<Rightarrow> Inl e
                | Inr s3 \<Rightarrow>
                    if cur s3 = c then Inr (intr_set_level old_level s3) else Inr s3))"

text \<open>The trampoline. The code behind a thread function is a parameter: \<open>run f a\<close> is
  the effect of calling the function at address \<open>f\<close> with argument \<open>a\<close>.\<close>

definition kernel_thread ::
  "(64 word \<Rightarrow> 64 word \<Rightarrow> sched \<Rightarrow> halt + sched) \<Rightarrow> 64 word \<Rightarrow> 64 word \<Rightarrow> sched
     \<Rightarrow> halt + sched" where
  "kernel_thread run function aux s =
     (if function = 0 then Inl (ASSERT_failed ''function != NULL'')
      else
        (case run function aux (intr_enable s) of
           Inl e \<Rightarrow> Inl e
         | Inr s1 \<Rightarrow> thread_exit s1))"

subsection \<open>Start-up\<close>

text \<open>The statics before \<^verbatim>\<open>thread_init\<close>: zero, except \<^verbatim>\<open>next_tid\<close> whose initialiser
  is 1. The loader has placed the stack pointer in the page \<open>stack_page\<close>.\<close>

definition boot :: "(addr \<Rightarrow> thread) \<Rightarrow> intr_frame \<Rightarrow> addr \<Rightarrow> addr list \<Rightarrow> sched" where
  "boot m regs stack_page pool =
     \<lparr>mem = m, ready_list = [], sleep_list = [], destruction_req = [],
      idle_thread = NULL, initial_thread = NULL, tid_lock = NULL, next_tid = 1,
      idle_ticks = 0, kernel_ticks = 0, user_ticks = 0, thread_ticks = 0, ticks = 0,
      cur = stack_page, cpu = regs, in_external_intr = False, yield_on_return = False,
      free_pages = pool, freed = []\<rparr>"

definition thread_init :: "sched \<Rightarrow> halt + sched" where
  "thread_init s =
     (if intr_get_level s \<noteq> INTR_OFF
        then Inl (ASSERT_failed ''intr_get_level () == INTR_OFF'')
      else
        (let s1 = s\<lparr>tid_lock := NULL, ready_list := [], destruction_req := []\<rparr>;
             s2 = s1\<lparr>initial_thread := running_thread s1\<rparr>
         in case init_thread (initial_thread s2) ''main'' PRI_DEFAULT s2 of
              Inl e \<Rightarrow> Inl e
            | Inr s3 \<Rightarrow>
                (let s4 = set_status (initial_thread s3) THREAD_RUNNING s3 in
                 case allocate_tid s4 of (new_tid, s5) \<Rightarrow>
                   Inr (s5\<lparr>mem := (mem s5)(initial_thread s5 :=
                               (mem s5 (initial_thread s5))\<lparr>tid := new_tid\<rparr>)\<rparr>))))"

text \<open>The first statement of \<^verbatim>\<open>idle\<close>, by which the idle thread registers itself.\<close>

definition idle_register :: "sched \<Rightarrow> halt + sched" where
  "idle_register s =
     (case thread_current s of
        Inl e \<Rightarrow> Inl e
      | Inr c \<Rightarrow> Inr (s\<lparr>idle_thread := c\<rparr>))"

subsection \<open>Sleeping until a tick\<close>

text \<open>Modelled from the spec: \<^verbatim>\<open>cmp_thread_ticks\<close> is declared in thread.h, its body is
  not part of the sources. The sleep queue is ordered by ascending wake deadline (section
  4.3), so the comparison is the strict order of the signed 64-bit deadlines.\<close>

definition cmp_thread_ticks :: "sched \<Rightarrow> addr \<Rightarrow> addr \<Rightarrow> bool" where
  "cmp_thread_ticks s a b \<longleftrightarrow> sint (wakeup_ticks (mem s a)) < sint (wakeup_ticks (mem s b))"

text \<open>Modelled from the spec: the ordered insertion of the kernel list library, which is
  not part of the sources. The new element goes before the first element that is strictly
  greater, hence behind every element with an equal deadline (section 4.3: stable on
  insertion order for equal deadlines).\<close>

fun list_insert_ordered :: "('a \<Rightarrow> 'a \<Rightarrow> bool) \<Rightarrow> 'a \<Rightarrow> 'a list \<Rightarrow> 'a list" where
  "list_insert_ordered lt e [] = [e]"
| "list_insert_ordered lt e (x # xs) =
     (if lt e x then e # x # xs else x # list_insert_ordered lt e xs)"

text \<open>Modelled from the spec: \<^verbatim>\<open>thread_sleep\<close> is declared in thread.h and called by
  \<^verbatim>\<open>timer_sleep\<close>, its body is not part of the sources. Section 4.3: equivalent to
  \<^verbatim>\<open>thread_block\<close>, except that, with interrupts disabled as one atomic unit with the
  block, the wake deadline field is set and the thread is first inserted into the sleep
  queue.\<close>

definition thread_sleep :: "64 word \<Rightarrow> sched \<Rightarrow> halt + sched" where
  "thread_sleep deadline s =
     (case thread_current s of
        Inl e \<Rightarrow> Inl e
      | Inr c \<Rightarrow>
          (let old_level = intr_get_level s;
               s1 = intr_disable s;
               s2 = s1\<lparr>mem := (mem s1)(c := (mem s1 c)\<lparr>wakeup_ticks := deadline\<rparr>)\<rparr>;
               s3 = s2\<lparr>sleep_list :=
                        list_insert_ordered (cmp_thread_ticks s2) c (sleep_list s2)\<rparr>
           in case thread_block s3 of
                Inl e \<Rightarrow> Inl e
              | Inr s4 \<Rightarrow>
                  if cur s4 = c then Inr (intr_set_level old_level s4) else Inr s4))"

text \<open>Modelled from the spec: \<^verbatim>\<open>thread_wakeup\<close> is declared in thread.h and called by
  \<^verbatim>\<open>timer_interrupt\<close>, its body is not part of the sources. Section 4.3: it repeatedly
  inspects the sleep-queue head and, while the head's deadline is at most \<open>now\<close>, removes
  it and calls \<^verbatim>\<open>thread_unblock\<close> on it; it stops at the first remaining entry whose
  deadline is still in the future. The list argument of the loop is the sleep queue of
  the state.\<close>

fun wakeup_loop :: "64 word \<Rightarrow> addr list \<Rightarrow> sched \<Rightarrow> halt + sched" where
  "wakeup_loop now [] s = Inr s"
| "wakeup_loop now (t # rest) s =
     (if sint (wakeup_ticks (mem s t)) \<le> sint now
      then (case thread_unblock t (s\<lparr>sleep_list := rest\<rparr>) of
              Inl e \<Rightarrow> Inl e
            | Inr s1 \<Rightarrow> wakeup_loop now rest s1)
      else Inr s)"

definition thread_wakeup :: "64 word \<Rightarrow> sched \<Rightarrow> halt + sched" where
  "thread_wakeup now s = wakeup_loop now (sleep_list s) s"

section \<open>timer.c\<close>

definition timer_ticks :: "sched \<Rightarrow> 64 word \<times> sched" where
  "timer_ticks s =
     (let old_level = intr_get_level s;
          s1 = intr_disable s;
          t = ticks s1
      in (t, intr_set_level old_level s1))"

definition timer_sleep :: "64 word \<Rightarrow> sched \<Rightarrow> halt + sched" where
  "timer_sleep tk s =
     (case timer_ticks s of (start, s1) \<Rightarrow>
        if intr_get_level s1 \<noteq> INTR_ON
          then Inl (ASSERT_failed ''intr_get_level () == INTR_ON'')
        else thread_sleep (start + tk) s1)"

definition timer_interrupt :: "sched \<Rightarrow> halt + sched" where
  "timer_interrupt s =
     (let s1 = s\<lparr>ticks := ticks s + 1\<rparr> in
      case thread_tick s1 of
        Inl e \<Rightarrow> Inl e
      | Inr s2 \<Rightarrow> thread_wakeup (ticks s2) s2)"

section \<open>Well-formed scheduler states\<close>

text \<open>A queue is well formed for a status when it has no duplicates and holds valid
  threads of that status only (valid as \<^verbatim>\<open>is_thread\<close> tests it, in the given memory).\<close>

definition valid_queue :: "(addr \<Rightarrow> thread) \<Rightarrow> addr list \<Rightarrow> thread_status \<Rightarrow> bool" where
  "valid_queue m q st \<longleftrightarrow>
     distinct q
     \<and> list_all (\<lambda>t. t \<noteq> NULL \<and> magic (m t) = THREAD_MAGIC \<and> status (m t) = st) q"

definition deadline_le :: "(addr \<Rightarrow> thread) \<Rightarrow> addr \<Rightarrow> addr \<Rightarrow> bool" where
  "deadline_le m = (\<lambda>a b. sint (wakeup_ticks (m a)) \<le> sint (wakeup_ticks (m b)))"

text \<open>The part of the invariant that also holds inside the scheduler, while the running
  thread has already given up the status \<^verbatim>\<open>THREAD_RUNNING\<close>.\<close>

definition queues_ok :: "sched \<Rightarrow> bool" where
  "queues_ok s \<longleftrightarrow>
     valid_queue (mem s) (ready_list s) THREAD_READY
     \<and> valid_queue (mem s) (sleep_list s) THREAD_BLOCKED
     \<and> valid_queue (mem s) (destruction_req s) THREAD_DYING
     \<and> sorted_wrt (deadline_le (mem s)) (sleep_list s)
     \<and> distinct (free_pages s)
     \<and> NULL \<notin> set (free_pages s)
     \<and> cur s \<notin> set (free_pages s)
     \<and> idle_thread s \<notin> set (free_pages s)
     \<and> set (free_pages s) \<inter> set (ready_list s) = {}
     \<and> set (free_pages s) \<inter> set (sleep_list s) = {}
     \<and> set (free_pages s) \<inter> set (destruction_req s) = {}
     \<and> idle_thread s \<notin> set (ready_list s)
     \<and> idle_thread s \<notin> set (sleep_list s)
     \<and> idle_thread s \<notin> set (destruction_req s)
     \<and> tid_lock s = NULL"

text \<open>The invariant between operations: the running thread is valid and has status
  \<^verbatim>\<open>THREAD_RUNNING\<close>.\<close>

definition sched_inv :: "sched \<Rightarrow> bool" where
  "sched_inv s \<longleftrightarrow>
     queues_ok s \<and> is_thread s (cur s) \<and> t_status s (cur s) = THREAD_RUNNING"

section \<open>Runs\<close>

text \<open>A sequence of thread creations, collecting what each call returns.\<close>

fun thread_creates ::
  "(string \<times> int \<times> 64 word \<times> 64 word) list \<Rightarrow> sched \<Rightarrow> halt + (tid_t list \<times> sched)" where
  "thread_creates [] s = Inr ([], s)"
| "thread_creates ((nm, prio, function, aux) # rest) s =
     (case thread_create nm prio function aux s of
        Inl e \<Rightarrow> Inl e
      | Inr (r, s1) \<Rightarrow>
          (case thread_creates rest s1 of
             Inl e \<Rightarrow> Inl e
           | Inr (rs, s2) \<Rightarrow> Inr (r # rs, s2)))"

text \<open>Consecutive calls of \<^verbatim>\<open>allocate_tid\<close>, and consecutive timer ticks with no
  scheduling decision in between.\<close>

fun allocate_tids :: "nat \<Rightarrow> sched \<Rightarrow> tid_t list \<times> sched" where
  "allocate_tids 0 s = ([], s)"
| "allocate_tids (Suc n) s =
     (case allocate_tid s of (r, s1) \<Rightarrow>
        (case allocate_tids n s1 of (rs, s2) \<Rightarrow> (r # rs, s2)))"

fun thread_tick_n :: "nat \<Rightarrow> sched \<Rightarrow> halt + sched" where
  "thread_tick_n 0 s = Inr s"
| "thread_tick_n (Suc n) s =
     (case thread_tick s of
        Inl e \<Rightarrow> Inl e
      | Inr s1 \<Rightarrow> thread_tick_n n s1)"

section \<open>Auxiliary notions for the proofs\<close>

text \<open>The thread that \<^verbatim>\<open>next_thread_to_run\<close> chooses, and the condition under which
  \<^verbatim>\<open>schedule\<close> queues the outgoing thread for destruction.\<close>

definition sched_next :: "sched \<Rightarrow> addr" where
  "sched_next s = (case ready_list s of [] \<Rightarrow> idle_thread s | t # _ \<Rightarrow> t)"

definition dying_cond :: "sched \<Rightarrow> bool" where
  "dying_cond s \<longleftrightarrow> cur s \<noteq> sched_next s \<and> cur s \<noteq> NULL \<and> t_status s (cur s) = THREAD_DYING
               \<and> cur s \<noteq> initial_thread s"

text \<open>The state after the loop of \<^verbatim>\<open>do_schedule\<close> has emptied the destruction queue.\<close>

definition drained :: "sched \<Rightarrow> sched" where
  "drained s = s\<lparr>destruction_req := [], free_pages := free_pages s @ destruction_req s,
                 freed := freed s @ destruction_req s\<rparr>"

section \<open>A concrete state\<close>

text \<open>The bootstrap thread (page 0x1000) is running, the idle thread (0x2000) and thread
  4 (0x4000) are blocked, thread 3 (0x3000) is ready, and the pool holds two free pages.
  Interrupts are off.\<close>

definition ex_thread :: "tid_t \<Rightarrow> thread_status \<Rightarrow> thread" where
  "ex_thread i st = zero_thread\<lparr>tid := i, status := st, magic := THREAD_MAGIC\<rparr>"

definition ex_mem :: "addr \<Rightarrow> thread" where
  "ex_mem a =
     (if a = 0x1000 then ex_thread 1 THREAD_RUNNING
      else if a = 0x2000 then ex_thread 2 THREAD_BLOCKED
      else if a = 0x3000 then ex_thread 3 THREAD_READY
      else if a = 0x4000 then ex_thread 4 THREAD_BLOCKED
      else zero_thread)"

definition ex_state :: sched where
  "ex_state =
     (boot ex_mem zero_frame 0x1000 [0x5000, 0x6000])
       \<lparr>ready_list := [0x3000], idle_thread := 0x2000, initial_thread := 0x1000,
         next_tid := 5\<rparr>"

section \<open>Closed forms of results\<close>

text \<open>The control block that a successful \<^verbatim>\<open>thread_create\<close> leaves in page \<open>p\<close>: the zeroed
  page as \<^verbatim>\<open>init_thread\<close> fills it, the identity, the frame set up for the trampoline, and
  the status written by \<^verbatim>\<open>thread_unblock\<close>.\<close>

definition created_thread ::
  "addr \<Rightarrow> string \<Rightarrow> int \<Rightarrow> 64 word \<Rightarrow> 64 word \<Rightarrow> tid_t \<Rightarrow> thread" where
  "created_thread p nm prio function aux new_tid =
     \<lparr>tid = new_tid, status = THREAD_READY, name = take 15 nm, priority = prio,
      wakeup_ticks = 0,
      tf = \<lparr>R = zero_regs\<lparr>rsi := aux, rdi := function\<rparr>, es = SEL_KDSEG, ds = SEL_KDSEG,
             rip = Fn_kernel_thread, cs = SEL_KCSEG, eflags = FLAG_IF,
             rsp = p + PGSIZE - 8, ss = SEL_KDSEG\<rparr>,
      magic = THREAD_MAGIC\<rparr>"

text \<open>The state in which \<^verbatim>\<open>thread_sleep\<close> enters \<^verbatim>\<open>schedule\<close>, the interrupt flag apart: the
  deadline is stored, the caller is inserted into the sleep queue and blocked.\<close>

definition sleep_pre :: "64 word \<Rightarrow> sched \<Rightarrow> sched" where
  "sleep_pre deadline s =
     (let s2 = s\<lparr>mem := (mem s)(cur s := (mem s (cur s))\<lparr>wakeup_ticks := deadline\<rparr>)\<rparr>;
          s3 = s2\<lparr>sleep_list :=
                   list_insert_ordered (cmp_thread_ticks s2) (cur s) (sleep_list s2)\<rparr>
      in set_status (cur s) THREAD_BLOCKED s3)"

text \<open>A sleeper is due at tick \<open>now\<close> when its deadline is at most \<open>now\<close>, compared as signed
  64-bit values. \<^verbatim>\<open>thread_wakeup\<close> wakes the due threads at the head of the sleep queue;
  \<open>after_wakeup\<close> is the state in which it returns.\<close>

definition due :: "64 word \<Rightarrow> (addr \<Rightarrow> thread) \<Rightarrow> addr \<Rightarrow> bool" where
  "due now m t \<longleftrightarrow> sint (wakeup_ticks (m t)) \<le> sint now"

definition woken :: "64 word \<Rightarrow> sched \<Rightarrow> addr list" where
  "woken now s = takeWhile (due now (mem s)) (sleep_list s)"

definition after_wakeup :: "64 word \<Rightarrow> sched \<Rightarrow> sched" where
  "after_wakeup now s =
     s\<lparr>sleep_list := dropWhile (due now (mem s)) (sleep_list s),
       ready_list := ready_list s @ woken now s,
       mem := (\<lambda>t. if t \<in> set (woken now s) then (mem s t)\<lparr>status := THREAD_READY\<rparr>
                   else mem s t)\<rparr>"

section \<open>Runs of scheduler calls\<close>

text \<open>The calls by which the rest of the kernel enters the scheduler, with their arguments.
  \<open>Set_level\<close> and \<open>Set_context\<close> stand for the interrupt layer: a change of the interrupt level
  (among them the \<^verbatim>\<open>intr_set_level (old_level)\<close> with which a resumed thread leaves the operation
  that suspended it), and the entry into or the return from an external interrupt handler.

  \<open>allowed\<close> states what the callers guarantee: \<^verbatim>\<open>thread_unblock\<close> is called neither on the idle
  thread nor on a thread of the sleep queue nor on a free page; the idle thread neither exits
  nor sleeps; and it registers itself once. A run halts at the first call that is not allowed
  or that halts itself.\<close>

datatype call =
    Create string int "64 word" "64 word"
  | Block
  | Unblock addr
  | Yield
  | Exit
  | Sleep "64 word"
  | Timer_sleep "64 word"
  | Tick
  | Wakeup "64 word"
  | Timer_interrupt
  | Idle_register
  | Set_level intr_level
  | Set_context bool

fun exec :: "call \<Rightarrow> sched \<Rightarrow> halt + sched" where
  "exec (Create nm prio f aux) s =
     (case thread_create nm prio f aux s of Inl e \<Rightarrow> Inl e | Inr (r, s1) \<Rightarrow> Inr s1)"
| "exec Block s = thread_block s"
| "exec (Unblock t) s = thread_unblock t s"
| "exec Yield s = thread_yield s"
| "exec Exit s = thread_exit s"
| "exec (Sleep deadline) s = thread_sleep deadline s"
| "exec (Timer_sleep tk) s = timer_sleep tk s"
| "exec Tick s = thread_tick s"
| "exec (Wakeup now) s = thread_wakeup now s"
| "exec Timer_interrupt s = timer_interrupt s"
| "exec Idle_register s = idle_register s"
| "exec (Set_level l) s = Inr (intr_set_level l s)"
| "exec (Set_context b) s = Inr (s\<lparr>in_external_intr := b, yield_on_return := False\<rparr>)"

fun allowed :: "call \<Rightarrow> sched \<Rightarrow> bool" where
  "allowed (Unblock t) s \<longleftrightarrow>
     t \<noteq> idle_thread s \<and> t \<notin> set (sleep_list s) \<and> t \<notin> set (free_pages s)"
| "allowed Exit s \<longleftrightarrow> cur s \<noteq> idle_thread s"
| "allowed (Sleep deadline) s \<longleftrightarrow> cur s \<noteq> idle_thread s"
| "allowed (Timer_sleep tk) s \<longleftrightarrow> cur s \<noteq> idle_thread s"
| "allowed Idle_register s \<longleftrightarrow> idle_thread s = NULL"
| "allowed c s \<longleftrightarrow> True"

fun run :: "call list \<Rightarrow> sched \<Rightarrow> halt + sched" where
  "run [] s = Inr s"
| "run (c # calls) s =
     (if allowed c s then (case exec c s of Inl e \<Rightarrow> Inl e | Inr s1 \<Rightarrow> run calls s1)
      else Inl (ASSERT_failed ''caller obligation''))"

section \<open>Further concrete states and notions for the claims\<close>

text \<open>Two variants of the concrete state: thread 3 running with the bootstrap thread
  ready, and the idle thread running with the bootstrap thread blocked.\<close>

definition ex_worker :: sched where
  "ex_worker =
     ex_state\<lparr>cur := 0x3000, ready_list := [0x1000],
       mem := ex_mem(0x1000 := ex_thread 1 THREAD_READY, 0x3000 := ex_thread 3 THREAD_RUNNING)\<rparr>"

definition ex_idle :: sched where
  "ex_idle =
     ex_state\<lparr>cur := 0x2000,
       mem := ex_mem(0x1000 := ex_thread 1 THREAD_BLOCKED, 0x2000 := ex_thread 2 THREAD_RUNNING)\<rparr>"

text \<open>The tick value a call passes to \<^verbatim>\<open>thread_wakeup\<close>, if it calls it.\<close>

fun wake_time :: "call \<Rightarrow> sched \<Rightarrow> 64 word option" where
  "wake_time (Wakeup now) s = Some now"
| "wake_time Timer_interrupt s = Some (ticks s + 1)"
| "wake_time c s = None"

text \<open>Thread \<open>t\<close> sleeps until tick \<open>T\<close>: it is in the sleep queue, blocked, with that
  wake deadline.\<close>

definition sleeping :: "sched \<Rightarrow> addr \<Rightarrow> 64 word \<Rightarrow> bool" where
  "sleeping s t T \<longleftrightarrow>
     t \<in> set (sleep_list s) \<and> t_status s t = THREAD_BLOCKED \<and> wakeup_ticks (mem s t) = T"

text \<open>Every call of \<^verbatim>\<open>thread_wakeup\<close> made during the run is made with a tick value
  before \<open>T\<close>.\<close>

fun early :: "64 word \<Rightarrow> call list \<Rightarrow> sched \<Rightarrow> bool" where
  "early T [] s = True"
| "early T (c # calls) s =
     ((case wake_time c s of None \<Rightarrow> True | Some now \<Rightarrow> sint now < sint T)
      \<and> (case exec c s of Inl e \<Rightarrow> True | Inr s1 \<Rightarrow> early T calls s1))"

text \<open>Element \<open>a\<close> occurs in the list, and \<open>b\<close> occurs behind its first occurrence.\<close>

fun precedes :: "'a \<Rightarrow> 'a \<Rightarrow> 'a list \<Rightarrow> bool" where
  "precedes a b [] = False"
| "precedes a b (x # xs) = (if x = a then b \<in> set xs else precedes a b xs)"

text \<open>A state of the concrete system at tick 10, with interrupts on: thread 3 is running,
  the bootstrap thread sleeps until tick 60 and the ready queue is empty.\<close>

definition ex_asleep :: sched where
  "ex_asleep =
     (intr_enable ex_state)\<lparr>cur := 0x3000, ready_list := [], sleep_list := [0x1000],
       ticks := 10,
       mem := ex_mem(0x1000 := (ex_thread 1 THREAD_BLOCKED)\<lparr>wakeup_ticks := 60\<rparr>,
                     0x3000 := ex_thread 3 THREAD_RUNNING)\<rparr>"

text \<open>Thread \<open>p\<close> is the running thread in no state of the run.\<close>

fun never_running :: "addr \<Rightarrow> call list \<Rightarrow> sched \<Rightarrow> bool" where
  "never_running p [] s = (cur s \<noteq> p)"
| "never_running p (c # calls) s =
     (cur s \<noteq> p \<and> (case exec c s of Inl e \<Rightarrow> True | Inr s1 \<Rightarrow> never_running p calls s1))"

text \<open>What an operation does to a thread \<open>p\<close> that waits in the ready queue: either \<open>p\<close>
  is entered, and then the registers are those of its saved frame; or its frame is left
  alone and it keeps waiting.\<close>

definition hands_over :: "addr \<Rightarrow> sched \<Rightarrow> sched \<Rightarrow> bool" where
  "hands_over p s s' \<longleftrightarrow>
     (if cur s' = p then cpu s' = tf (mem s p) \<and> t_status s' p = THREAD_RUNNING
      else tf (mem s' p) = tf (mem s p) \<and> p \<in> set (ready_list s'))"

section \<open>Properties\<close>

subsection \<open>The interrupt flag\<close>

lemma FLAG_IF_exp: "FLAG_IF = 2 ^ 9"
  by (simp add: FLAG_IF_def)

lemma FLAG_IF_nz: "FLAG_IF \<noteq> 0"
  by (simp add: FLAG_IF_def)

lemma flag_off: "(x AND NOT FLAG_IF) AND FLAG_IF = 0"
  by (simp add: word_bw_assocs)

lemma bit_FLAG_IF: "bit FLAG_IF n \<longleftrightarrow> n = 9"
  unfolding FLAG_IF_exp bit_exp_iff by (auto simp: possible_bit_word)

lemma flag_bit9: "x AND FLAG_IF = 0 \<longleftrightarrow> \<not> bit x 9"
proof
  assume "x AND FLAG_IF = 0"
  then have "\<not> bit (x AND FLAG_IF) 9" by simp
  then show "\<not> bit x 9" by (simp add: bit_and_iff bit_FLAG_IF)
next
  assume "\<not> bit x 9"
  then show "x AND FLAG_IF = 0"
    by (intro bit_word_eqI) (auto simp: bit_and_iff bit_FLAG_IF)
qed

lemma flag_keep_off: "x AND FLAG_IF = 0 \<Longrightarrow> x AND NOT FLAG_IF = x"
  unfolding flag_bit9 by (intro bit_word_eqI) (auto simp: bit_and_iff bit_not_iff bit_FLAG_IF)

lemma flag_keep_on: "x AND FLAG_IF \<noteq> 0 \<Longrightarrow> (x AND NOT FLAG_IF) OR FLAG_IF = x"
  unfolding flag_bit9
  by (intro bit_word_eqI) (auto simp: bit_and_iff bit_or_iff bit_not_iff bit_FLAG_IF)

lemma intr_get_level_disable: "intr_get_level (intr_disable s) = INTR_OFF"
  by (simp add: intr_get_level_def intr_disable_def flag_off)

lemma intr_get_level_enable: "intr_get_level (intr_enable s) = INTR_ON"
  by (simp add: intr_get_level_def intr_enable_def FLAG_IF_nz)

lemma intr_get_level_set_level: "intr_get_level (intr_set_level l s) = l"
  by (cases l) (simp_all add: intr_set_level_def intr_get_level_disable intr_get_level_enable)

lemma intr_restore: "intr_set_level (intr_get_level s) (intr_disable s) = s"
  by (simp add: intr_set_level_def intr_get_level_def intr_disable_def intr_enable_def
       flag_keep_off flag_keep_on flag_off word_bw_assocs)

subsection \<open>Basic facts about the operations\<close>

lemma thread_current_Inr:
  "thread_current s = Inr t \<longleftrightarrow>
     t = cur s \<and> is_thread s (cur s) \<and> t_status s (cur s) = THREAD_RUNNING"
  by (auto simp: thread_current_def running_thread_def Let_def)

lemma thread_current_Inr_cong:
  assumes "cur s' = cur s" "mem s' = mem s"
  shows "thread_current s' = thread_current s"
  using assms by (simp add: thread_current_def running_thread_def is_thread_def t_status_def Let_def)

lemma thread_unblock_ok:
  assumes "is_thread s t" "t_status s t = THREAD_BLOCKED"
  shows "thread_unblock t s =
    Inr (s\<lparr>ready_list := ready_list s @ [t],
           mem := (mem s)(t := (mem s t)\<lparr>status := THREAD_READY\<rparr>)\<rparr>)"
  using assms
  by (cases "eflags (cpu s) AND FLAG_IF = 0")
     (simp_all add: thread_unblock_def thread_unblock_trace_def Let_def is_thread_def t_status_def set_status_def
        intr_set_level_def intr_get_level_def intr_disable_def intr_enable_def
        flag_keep_off flag_keep_on flag_off word_bw_assocs)

lemma thread_tick_Inr:
  assumes "thread_current s = Inr t"
  shows "thread_tick s =
     Inr ((if t = idle_thread s then s\<lparr>idle_ticks := idle_ticks s + 1\<rparr>
           else s\<lparr>kernel_ticks := kernel_ticks s + 1\<rparr>)
          \<lparr>thread_ticks := thread_ticks s + 1,
            yield_on_return := (yield_on_return s \<or> TIME_SLICE \<le> thread_ticks s + 1)\<rparr>)"
  using assms by (simp add: thread_tick_def Let_def intr_yield_on_return_def)

lemma thread_tick_n_fields:
  assumes "thread_current s = Inr t"
  shows "\<exists>s'. thread_tick_n n s = Inr s' \<and> thread_ticks s' = thread_ticks s + of_nat n
     \<and> cur s' = cur s \<and> mem s' = mem s \<and> cpu s' = cpu s \<and> ready_list s' = ready_list s
     \<and> (yield_on_return s' \<longleftrightarrow>
          yield_on_return s \<or> (\<exists>k<n. TIME_SLICE \<le> thread_ticks s + of_nat k + 1))"
  using assms
proof (induction n arbitrary: s)
  case 0
  then show ?case by simp
next
  case (Suc n)
  let ?s1 = "(if t = idle_thread s then s\<lparr>idle_ticks := idle_ticks s + 1\<rparr>
           else s\<lparr>kernel_ticks := kernel_ticks s + 1\<rparr>)
          \<lparr>thread_ticks := thread_ticks s + 1,
            yield_on_return := (yield_on_return s \<or> TIME_SLICE \<le> thread_ticks s + 1)\<rparr>"
  have t1: "thread_tick s = Inr ?s1" by (rule thread_tick_Inr[OF Suc.prems])
  have "thread_current ?s1 = thread_current s"
    by (rule thread_current_Inr_cong) simp_all
  then have c1: "thread_current ?s1 = Inr t" using Suc.prems by simp
  from Suc.IH[OF c1] obtain s' where s': "thread_tick_n n ?s1 = Inr s'"
     "thread_ticks s' = thread_ticks ?s1 + of_nat n" "cur s' = cur ?s1" "mem s' = mem ?s1"
     "cpu s' = cpu ?s1" "ready_list s' = ready_list ?s1"
     "yield_on_return s' \<longleftrightarrow>
          yield_on_return ?s1 \<or> (\<exists>k<n. TIME_SLICE \<le> thread_ticks ?s1 + of_nat k + 1)"
    by blast
  have ex: "(\<exists>k<Suc n. TIME_SLICE \<le> thread_ticks s + of_nat k + 1) \<longleftrightarrow>
        TIME_SLICE \<le> thread_ticks s + 1 \<or> (\<exists>k<n. TIME_SLICE \<le> thread_ticks s + 1 + of_nat k + 1)"
  proof
    assume "\<exists>k<Suc n. TIME_SLICE \<le> thread_ticks s + of_nat k + 1"
    then obtain k where k: "k < Suc n" "TIME_SLICE \<le> thread_ticks s + of_nat k + 1" by blast
    show "TIME_SLICE \<le> thread_ticks s + 1 \<or> (\<exists>k<n. TIME_SLICE \<le> thread_ticks s + 1 + of_nat k + 1)"
    proof (cases k)
      case 0
      with k show ?thesis by simp
    next
      case (Suc j)
      with k have "j < n" "TIME_SLICE \<le> thread_ticks s + 1 + of_nat j + 1"
        by (simp_all add: add.commute add.left_commute)
      then show ?thesis by blast
    qed
  next
    assume "TIME_SLICE \<le> thread_ticks s + 1 \<or> (\<exists>k<n. TIME_SLICE \<le> thread_ticks s + 1 + of_nat k + 1)"
    then show "\<exists>k<Suc n. TIME_SLICE \<le> thread_ticks s + of_nat k + 1"
    proof
      assume "TIME_SLICE \<le> thread_ticks s + 1"
      then have "0 < Suc n \<and> TIME_SLICE \<le> thread_ticks s + of_nat 0 + 1" by simp
      then show ?thesis by blast
    next
      assume "\<exists>k<n. TIME_SLICE \<le> thread_ticks s + 1 + of_nat k + 1"
      then obtain k where "k < n" "TIME_SLICE \<le> thread_ticks s + 1 + of_nat k + 1" by blast
      then have "Suc k < Suc n \<and> TIME_SLICE \<le> thread_ticks s + of_nat (Suc k) + 1"
        by (simp add: add.commute add.left_commute)
      then show ?thesis by blast
    qed
  qed
  show ?case
    using t1 s' ex by (simp add: add.commute add.left_commute)
qed

lemma thread_tick_n_3:
  assumes "thread_current s = Inr t" "thread_ticks s = 0" "\<not> yield_on_return s"
  shows "\<exists>s3 s4. thread_tick_n 3 s = Inr s3 \<and> \<not> yield_on_return s3
           \<and> thread_tick s3 = Inr s4 \<and> yield_on_return s4 \<and> thread_ticks s4 = TIME_SLICE"
proof -
  from thread_tick_n_fields[OF assms(1), of 3] obtain s3 where s3:
    "thread_tick_n 3 s = Inr s3" "thread_ticks s3 = thread_ticks s + of_nat 3"
    "cur s3 = cur s" "mem s3 = mem s"
    "yield_on_return s3 \<longleftrightarrow>
          yield_on_return s \<or> (\<exists>k<3. TIME_SLICE \<le> thread_ticks s + of_nat k + 1)"
    by blast
  have "\<not> (\<exists>k<3::nat. TIME_SLICE \<le> (0::32 word) + of_nat k + 1)"
  proof
    assume "\<exists>k<3::nat. TIME_SLICE \<le> (0::32 word) + of_nat k + 1"
    then obtain k :: nat where "k < 3" "TIME_SLICE \<le> (0::32 word) + of_nat k + 1" by blast
    then have "k = 0 \<or> k = 1 \<or> k = 2" by arith
    with \<open>TIME_SLICE \<le> (0::32 word) + of_nat k + 1\<close> show False
      by (auto simp: TIME_SLICE_def word_le_nat_alt)
  qed
  with s3 assms have ny: "\<not> yield_on_return s3" by simp
  have "thread_current s3 = thread_current s"
    by (rule thread_current_Inr_cong) (simp_all add: s3)
  then have c3: "thread_current s3 = Inr t" using assms by simp
  show ?thesis
    using s3 ny assms thread_tick_Inr[OF c3]
    by (simp add: TIME_SLICE_def)
qed

lemma next_thread_to_run_eq:
  "next_thread_to_run s = (sched_next s, s\<lparr>ready_list := tl (ready_list s)\<rparr>)"
  by (cases "ready_list s") (simp_all add: next_thread_to_run_def sched_next_def)

lemma schedule_asserts:
  assumes "schedule s = Inr s'"
  shows "intr_get_level s = INTR_OFF" and "t_status s (cur s) \<noteq> THREAD_RUNNING"
    and "is_thread s (sched_next s)"
  using assms
  by (auto simp: schedule_def next_thread_to_run_eq running_thread_def Let_def
        t_status_def is_thread_def intr_get_level_def split: if_splits)

lemma schedule_result:
  assumes "schedule s = Inr s'"
  shows "s' =
     (if cur s = sched_next s
      then s\<lparr>ready_list := tl (ready_list s),
             mem := (mem s)(sched_next s := (mem s (sched_next s))\<lparr>status := THREAD_RUNNING\<rparr>),
             thread_ticks := 0\<rparr>
      else s\<lparr>ready_list := tl (ready_list s),
             mem := (mem s)(sched_next s := (mem s (sched_next s))\<lparr>status := THREAD_RUNNING\<rparr>,
                           cur s := (mem s (cur s))\<lparr>tf := (cpu s)\<lparr>rip := Label_out_iret\<rparr>\<rparr>),
             thread_ticks := 0,
             destruction_req := (if dying_cond s then destruction_req s @ [cur s]
                                 else destruction_req s),
             cur := sched_next s,
             cpu := tf (mem s (sched_next s))\<rparr>)"
  using assms schedule_asserts[OF assms]
  by (auto simp: schedule_def next_thread_to_run_eq running_thread_def Let_def dying_cond_def
        thread_launch_def do_iret_def set_status_def t_status_def is_thread_def
        intr_get_level_def split: if_splits)

lemma schedule_fields:
  assumes "schedule s = Inr s'"
  shows "cur s' = sched_next s"
    and "ready_list s' = tl (ready_list s)"
    and "thread_ticks s' = 0"
    and "sleep_list s' = sleep_list s"
    and "destruction_req s' =
           (if dying_cond s then destruction_req s @ [cur s] else destruction_req s)"
    and "free_pages s' = free_pages s"
    and "freed s' = freed s"
    and "idle_thread s' = idle_thread s"
    and "initial_thread s' = initial_thread s"
    and "next_tid s' = next_tid s"
    and "tid_lock s' = tid_lock s"
    and "t_status s' t = (if t = sched_next s then THREAD_RUNNING else t_status s t)"
    and "magic (mem s' t) = magic (mem s t)"
    and "wakeup_ticks (mem s' t) = wakeup_ticks (mem s t)"
  unfolding schedule_result[OF assms]
  by (simp_all add: t_status_def dying_cond_def)

lemma destroy_all_result:
  "destroy_all vs s =
     s\<lparr>destruction_req := [], free_pages := free_pages s @ vs, freed := freed s @ vs\<rparr>"
  by (induction vs arbitrary: s) (simp_all add: palloc_free_page_def)

lemma do_schedule_Inr:
  assumes "do_schedule st s = Inr s'"
  shows "intr_get_level s = INTR_OFF" and "is_thread s (cur s)"
    and "t_status s (cur s) = THREAD_RUNNING"
    and "schedule (set_status (cur s) st (drained s)) = Inr s'"
proof -
  from assms obtain c where c: "thread_current s = Inr c"
    by (auto simp: do_schedule_def split: if_splits sum.splits)
  have "thread_current (drained s) = thread_current s"
    by (rule thread_current_Inr_cong) (simp_all add: drained_def)
  with c have c': "thread_current (drained s) = Inr c" by simp
  from assms show "intr_get_level s = INTR_OFF"
    by (auto simp: do_schedule_def split: if_splits)
  from c show "is_thread s (cur s)" "t_status s (cur s) = THREAD_RUNNING"
    by (simp_all add: thread_current_Inr)
  from c have "c = cur s" by (simp add: thread_current_Inr)
  with assms c c' show "schedule (set_status (cur s) st (drained s)) = Inr s'"
    by (auto simp: do_schedule_def destroy_all_result drained_def[symmetric] split: if_splits)
qed

subsection \<open>The invariant is kept by the scheduling decision\<close>

lemma sched_next_cases:
  "(ready_list s = [] \<and> sched_next s = idle_thread s)
   \<or> (\<exists>ts. ready_list s = sched_next s # ts)"
  by (cases "ready_list s") (simp_all add: sched_next_def)

lemma is_thread_schedule:
  assumes "schedule s = Inr s'"
  shows "is_thread s' t = is_thread s t"
  by (simp add: is_thread_def schedule_fields[OF assms])

lemma deadline_le_schedule:
  assumes "schedule s = Inr s'"
  shows "deadline_le (mem s') = deadline_le (mem s)"
  by (simp add: deadline_le_def fun_eq_iff schedule_fields[OF assms])

lemma schedule_inv:
  assumes q: "queues_ok s" and sch: "schedule s = Inr s'"
    and c1: "cur s \<notin> set (destruction_req s)"
    and c2: "is_thread s (cur s)"
    and c3: "t_status s (cur s) = THREAD_DYING \<longrightarrow> cur s \<noteq> idle_thread s"
  shows "sched_inv s'"
proof -
  note f = schedule_fields[OF sch, unfolded t_status_def] is_thread_schedule[OF sch]
    deadline_le_schedule[OF sch]
  note a = schedule_asserts[OF sch]
  from sched_next_cases[of s] show ?thesis
  proof
    assume e: "ready_list s = [] \<and> sched_next s = idle_thread s"
    show ?thesis
      using q c1 c2 c3 a e
      unfolding sched_inv_def queues_ok_def valid_queue_def f list_all_iff dying_cond_def
        is_thread_def t_status_def
      by auto
  next
    assume "\<exists>ts. ready_list s = sched_next s # ts"
    then obtain ts where e: "ready_list s = sched_next s # ts" by blast
    show ?thesis
      using q c1 c2 c3 a e
      unfolding sched_inv_def queues_ok_def valid_queue_def f list_all_iff dying_cond_def
        is_thread_def t_status_def
      by auto
  qed
qed

section \<open>The claims\<close>

lemmas ex_defs = ex_state_def boot_def ex_mem_def ex_thread_def zero_thread_def zero_frame_def
  zero_regs_def NULL_def THREAD_MAGIC_def is_thread_def t_status_def

text \<open>Claim C3: if the page allocator is exhausted during \<^verbatim>\<open>thread_create\<close>, the call
  returns \<^verbatim>\<open>TID_ERROR\<close> and leaves the whole scheduler state as it was: no thread is
  initialised or registered, the ready queue is the same, and no identity is consumed.\<close>

theorem thread_create_exhausted:
  assumes "free_pages s = []" and "function \<noteq> 0"
  shows "thread_create nm prio function aux s = Inr (TID_ERROR, s)"
  using assms by (simp add: thread_create_def palloc_get_page_def)

theorem thread_create_exhausted_witness:
  "free_pages (ex_state\<lparr>free_pages := []\<rparr>) = [] \<and> (0x400000 :: 64 word) \<noteq> 0
   \<and> thread_create ''worker'' 31 0x400000 0 (ex_state\<lparr>free_pages := []\<rparr>)
       = Inr (TID_ERROR, ex_state\<lparr>free_pages := []\<rparr>)
   \<and> ready_list (ex_state\<lparr>free_pages := []\<rparr>) = [0x3000]"
  using thread_create_exhausted[of "ex_state\<lparr>free_pages := []\<rparr>" "0x400000" "''worker''" 31 0]
  by (simp add: ex_state_def)

text \<open>Claim C4: \<^verbatim>\<open>next_thread_to_run\<close> returns the idle thread when the ready queue is
  empty; otherwise it removes and returns the head of the queue, whatever the priorities
  stored in memory are. As the idle thread is not in the ready queue, the idle thread is
  returned if and only if the queue is empty.\<close>

theorem next_thread_to_run_fifo:
  "(ready_list s = [] \<longrightarrow> next_thread_to_run s = (idle_thread s, s))
   \<and> (\<forall>t ts. ready_list s = t # ts \<longrightarrow> next_thread_to_run s = (t, s\<lparr>ready_list := ts\<rparr>))
   \<and> (idle_thread s \<notin> set (ready_list s) \<longrightarrow>
        (fst (next_thread_to_run s) = idle_thread s \<longleftrightarrow> ready_list s = []))
   \<and> fst (next_thread_to_run (s\<lparr>mem := m\<rparr>)) = fst (next_thread_to_run s)"
  by (cases "ready_list s") (auto simp: next_thread_to_run_def)

theorem next_thread_to_run_fifo_witness:
  "ready_list ex_state = [0x3000] \<and> idle_thread ex_state \<notin> set (ready_list ex_state)
   \<and> next_thread_to_run ex_state = (0x3000, ex_state\<lparr>ready_list := []\<rparr>)
   \<and> fst (next_thread_to_run ex_state) \<noteq> idle_thread ex_state
   \<and> ready_list (ex_state\<lparr>ready_list := []\<rparr>) = []
   \<and> next_thread_to_run (ex_state\<lparr>ready_list := []\<rparr>) = (0x2000, ex_state\<lparr>ready_list := []\<rparr>)"
  using next_thread_to_run_fifo[of ex_state ex_mem]
    next_thread_to_run_fifo[of "ex_state\<lparr>ready_list := []\<rparr>" ex_mem]
  by (simp add: ex_state_def)

text \<open>Claim C5: \<^verbatim>\<open>thread_unblock\<close> halts on a failed assertion unless its argument is
  a valid thread of status \<^verbatim>\<open>THREAD_BLOCKED\<close>. On such a thread it returns, and the state
  in which it returns differs from the initial one in exactly two places: the thread is
  appended to the tail of the ready queue and its status is \<^verbatim>\<open>THREAD_READY\<close>. The
  operation is atomic: its run passes through four states, the first of which has
  interrupts off and still the queue and the status of the initial state; the queue is
  written in the second and the status in the third, both with interrupts off; only the
  fourth, in which the queue and the status are those of the third, has the interrupt level
  of the caller again. The running thread and the tick counter of the quantum are the same
  in all four states, and the registers of the caller are the same on return, so no
  scheduling decision took place.\<close>

theorem thread_unblock_contract:
  "(\<not> is_thread s t \<longrightarrow> thread_unblock t s = Inl (ASSERT_failed ''is_thread (t)''))
   \<and> (is_thread s t \<and> t_status s t \<noteq> THREAD_BLOCKED \<longrightarrow>
        thread_unblock t s = Inl (ASSERT_failed ''t->status == THREAD_BLOCKED''))
   \<and> (is_thread s t \<and> t_status s t = THREAD_BLOCKED \<longrightarrow>
        thread_unblock t s =
          Inr (s\<lparr>ready_list := ready_list s @ [t],
                 mem := (mem s)(t := (mem s t)\<lparr>status := THREAD_READY\<rparr>)\<rparr>)
        \<and> (\<exists>s1 s2 s3 s4.
              thread_unblock_trace t s = Inr [s1, s2, s3, s4]
              \<and> thread_unblock t s = Inr s4
              \<and> intr_get_level s1 = INTR_OFF \<and> ready_list s1 = ready_list s \<and> mem s1 = mem s
              \<and> intr_get_level s2 = INTR_OFF \<and> ready_list s2 = ready_list s @ [t]
              \<and> mem s2 = mem s
              \<and> intr_get_level s3 = INTR_OFF \<and> ready_list s3 = ready_list s @ [t]
              \<and> mem s3 = (mem s)(t := (mem s t)\<lparr>status := THREAD_READY\<rparr>)
              \<and> intr_get_level s4 = intr_get_level s \<and> ready_list s4 = ready_list s3
              \<and> mem s4 = mem s3
              \<and> list_all (\<lambda>x. cur x = cur s \<and> thread_ticks x = thread_ticks s)
                   [s1, s2, s3, s4]))"
proof (intro conjI impI)
  assume "\<not> is_thread s t"
  then show "thread_unblock t s = Inl (ASSERT_failed ''is_thread (t)'')"
    by (simp add: thread_unblock_def thread_unblock_trace_def)
next
  assume "is_thread s t \<and> t_status s t \<noteq> THREAD_BLOCKED"
  then show "thread_unblock t s = Inl (ASSERT_failed ''t->status == THREAD_BLOCKED'')"
    by (simp add: thread_unblock_def thread_unblock_trace_def Let_def t_status_def
          intr_disable_def)
next
  assume a: "is_thread s t \<and> t_status s t = THREAD_BLOCKED"
  then show "thread_unblock t s =
          Inr (s\<lparr>ready_list := ready_list s @ [t],
                 mem := (mem s)(t := (mem s t)\<lparr>status := THREAD_READY\<rparr>)\<rparr>)"
    by (simp add: thread_unblock_ok)
  define s1 where "s1 = intr_disable s"
  define s2 where "s2 = s1\<lparr>ready_list := ready_list s1 @ [t]\<rparr>"
  define s3 where "s3 = set_status t THREAD_READY s2"
  define s4 where "s4 = intr_set_level (intr_get_level s) s3"
  have f1: "ready_list s1 = ready_list s" "mem s1 = mem s" "cur s1 = cur s"
    "thread_ticks s1 = thread_ticks s"
    by (simp_all add: s1_def intr_disable_def)
  have l1: "intr_get_level s1 = INTR_OFF"
    unfolding s1_def by (rule intr_get_level_disable)
  have f2: "ready_list s2 = ready_list s @ [t]" "mem s2 = mem s" "cur s2 = cur s"
    "thread_ticks s2 = thread_ticks s" "cpu s2 = cpu s1"
    by (simp_all add: s2_def f1)
  have f3: "ready_list s3 = ready_list s @ [t]"
    "mem s3 = (mem s)(t := (mem s t)\<lparr>status := THREAD_READY\<rparr>)" "cur s3 = cur s"
    "thread_ticks s3 = thread_ticks s" "cpu s3 = cpu s1"
    by (simp_all add: s3_def set_status_def f2)
  have l2: "intr_get_level s2 = INTR_OFF" and l3: "intr_get_level s3 = INTR_OFF"
    using l1 by (simp_all add: intr_get_level_def f2 f3)
  have f4: "ready_list s4 = ready_list s3" "mem s4 = mem s3" "cur s4 = cur s"
    "thread_ticks s4 = thread_ticks s"
    by (simp_all add: s4_def intr_set_level_def intr_enable_def intr_disable_def f3)
  have l4: "intr_get_level s4 = intr_get_level s"
    unfolding s4_def by (cases "intr_get_level s") (simp_all add: intr_get_level_set_level)
  from a have tr: "thread_unblock_trace t s = Inr [s1, s2, s3, s4]"
    by (simp add: thread_unblock_trace_def Let_def t_status_def s1_def s2_def s3_def s4_def
          intr_disable_def)
  then have "thread_unblock t s = Inr s4"
    by (simp add: thread_unblock_def)
  with tr f1 f2 f3 f4 l1 l2 l3 l4
  show "\<exists>s1 s2 s3 s4.
              thread_unblock_trace t s = Inr [s1, s2, s3, s4]
              \<and> thread_unblock t s = Inr s4
              \<and> intr_get_level s1 = INTR_OFF \<and> ready_list s1 = ready_list s \<and> mem s1 = mem s
              \<and> intr_get_level s2 = INTR_OFF \<and> ready_list s2 = ready_list s @ [t]
              \<and> mem s2 = mem s
              \<and> intr_get_level s3 = INTR_OFF \<and> ready_list s3 = ready_list s @ [t]
              \<and> mem s3 = (mem s)(t := (mem s t)\<lparr>status := THREAD_READY\<rparr>)
              \<and> intr_get_level s4 = intr_get_level s \<and> ready_list s4 = ready_list s3
              \<and> mem s4 = mem s3
              \<and> list_all (\<lambda>x. cur x = cur s \<and> thread_ticks x = thread_ticks s)
                   [s1, s2, s3, s4]"
    by simp
qed

theorem thread_unblock_contract_witness:
  "is_thread (intr_enable ex_state) 0x4000
   \<and> t_status (intr_enable ex_state) 0x4000 = THREAD_BLOCKED
   \<and> intr_get_level (intr_enable ex_state) = INTR_ON
   \<and> (\<exists>s1 s2 s3 s4. thread_unblock_trace 0x4000 (intr_enable ex_state) = Inr [s1, s2, s3, s4]
          \<and> thread_unblock 0x4000 (intr_enable ex_state) = Inr s4
          \<and> intr_get_level s1 = INTR_OFF \<and> intr_get_level s2 = INTR_OFF
          \<and> intr_get_level s3 = INTR_OFF \<and> intr_get_level s4 = INTR_ON
          \<and> ready_list s1 = [0x3000] \<and> ready_list s2 = [0x3000, 0x4000]
          \<and> t_status s2 0x4000 = THREAD_BLOCKED \<and> t_status s3 0x4000 = THREAD_READY
          \<and> ready_list s4 = [0x3000, 0x4000] \<and> t_status s4 0x4000 = THREAD_READY
          \<and> cur s4 = 0x1000)
   \<and> is_thread ex_state 0x3000 \<and> t_status ex_state 0x3000 \<noteq> THREAD_BLOCKED
   \<and> thread_unblock 0x3000 ex_state = Inl (ASSERT_failed ''t->status == THREAD_BLOCKED'')
   \<and> \<not> is_thread ex_state 0x7000
   \<and> thread_unblock 0x7000 ex_state = Inl (ASSERT_failed ''is_thread (t)'')"
proof -
  let ?s = "intr_enable ex_state"
  have h: "is_thread ?s 0x4000" "t_status ?s 0x4000 = THREAD_BLOCKED"
    by (simp_all add: ex_defs intr_enable_def)
  have on: "intr_get_level ?s = INTR_ON"
    by (rule intr_get_level_enable)
  have m: "mem ?s = ex_mem" "ready_list ?s = [0x3000]" "cur ?s = 0x1000"
    by (simp_all add: ex_defs intr_enable_def)
  from thread_unblock_contract[of ?s "0x4000"] h
  obtain s1 s2 s3 s4 where
    tr: "thread_unblock_trace 0x4000 ?s = Inr [s1, s2, s3, s4]"
      "thread_unblock 0x4000 ?s = Inr s4"
    and l: "intr_get_level s1 = INTR_OFF" "intr_get_level s2 = INTR_OFF"
      "intr_get_level s3 = INTR_OFF" "intr_get_level s4 = intr_get_level ?s"
    and q: "ready_list s1 = ready_list ?s" "ready_list s2 = ready_list ?s @ [0x4000]"
      "ready_list s3 = ready_list ?s @ [0x4000]" "ready_list s4 = ready_list s3"
    and mm: "mem s1 = mem ?s" "mem s2 = mem ?s"
      "mem s3 = (mem ?s)(0x4000 := (mem ?s 0x4000)\<lparr>status := THREAD_READY\<rparr>)"
      "mem s4 = mem s3"
    and c: "list_all (\<lambda>x. cur x = cur ?s \<and> thread_ticks x = thread_ticks ?s) [s1, s2, s3, s4]"
    by blast
  have a: "\<exists>s1 s2 s3 s4. thread_unblock_trace 0x4000 ?s = Inr [s1, s2, s3, s4]
          \<and> thread_unblock 0x4000 ?s = Inr s4
          \<and> intr_get_level s1 = INTR_OFF \<and> intr_get_level s2 = INTR_OFF
          \<and> intr_get_level s3 = INTR_OFF \<and> intr_get_level s4 = INTR_ON
          \<and> ready_list s1 = [0x3000] \<and> ready_list s2 = [0x3000, 0x4000]
          \<and> t_status s2 0x4000 = THREAD_BLOCKED \<and> t_status s3 0x4000 = THREAD_READY
          \<and> ready_list s4 = [0x3000, 0x4000] \<and> t_status s4 0x4000 = THREAD_READY
          \<and> cur s4 = 0x1000"
    using tr l q mm c on m h by (auto simp: t_status_def)
  have b: "is_thread ex_state 0x3000 \<and> t_status ex_state 0x3000 \<noteq> THREAD_BLOCKED
     \<and> thread_unblock 0x3000 ex_state = Inl (ASSERT_failed ''t->status == THREAD_BLOCKED'')
     \<and> \<not> is_thread ex_state 0x7000
     \<and> thread_unblock 0x7000 ex_state = Inl (ASSERT_failed ''is_thread (t)'')"
    using thread_unblock_contract[of ex_state "0x3000"]
      thread_unblock_contract[of ex_state "0x7000"]
    by (simp add: ex_defs)
  from h on a b show ?thesis by blast
qed

text \<open>Claim C7: \<^verbatim>\<open>TIME_SLICE\<close> is 4; \<^verbatim>\<open>thread_tick\<close> increments the per-quantum
  counter on every tick and requests a yield on return exactly when the incremented
  counter has reached \<^verbatim>\<open>TIME_SLICE\<close>, without switching threads inside the handler; from
  a fresh quantum the first three ticks raise no request and the fourth does; and every
  scheduling decision (\<^verbatim>\<open>schedule\<close>, \<^verbatim>\<open>do_schedule\<close>) resets the counter to zero.\<close>

theorem thread_tick_time_slice:
  "TIME_SLICE = 4
   \<and> (thread_current s = Inr t \<longrightarrow>
        (\<exists>s'. thread_tick s = Inr s' \<and> thread_ticks s' = thread_ticks s + 1
           \<and> (yield_on_return s' \<longleftrightarrow> yield_on_return s \<or> TIME_SLICE \<le> thread_ticks s + 1)
           \<and> cur s' = cur s \<and> cpu s' = cpu s \<and> ready_list s' = ready_list s
           \<and> mem s' = mem s))
   \<and> (thread_current s = Inr t \<and> thread_ticks s = 0 \<and> \<not> yield_on_return s \<longrightarrow>
        (\<exists>s3 s4. thread_tick_n 3 s = Inr s3 \<and> \<not> yield_on_return s3
           \<and> thread_tick s3 = Inr s4 \<and> yield_on_return s4 \<and> thread_ticks s4 = TIME_SLICE))
   \<and> (\<forall>s'. schedule s = Inr s' \<longrightarrow> thread_ticks s' = 0)
   \<and> (\<forall>s'. do_schedule st s = Inr s' \<longrightarrow> thread_ticks s' = 0)"
proof (intro conjI impI allI)
  show "TIME_SLICE = 4" by (simp add: TIME_SLICE_def)
next
  assume "thread_current s = Inr t"
  then show "\<exists>s'. thread_tick s = Inr s' \<and> thread_ticks s' = thread_ticks s + 1
           \<and> (yield_on_return s' \<longleftrightarrow> yield_on_return s \<or> TIME_SLICE \<le> thread_ticks s + 1)
           \<and> cur s' = cur s \<and> cpu s' = cpu s \<and> ready_list s' = ready_list s
           \<and> mem s' = mem s"
    by (simp add: thread_tick_Inr)
next
  assume "thread_current s = Inr t \<and> thread_ticks s = 0 \<and> \<not> yield_on_return s"
  then show "\<exists>s3 s4. thread_tick_n 3 s = Inr s3 \<and> \<not> yield_on_return s3
           \<and> thread_tick s3 = Inr s4 \<and> yield_on_return s4 \<and> thread_ticks s4 = TIME_SLICE"
    using thread_tick_n_3 by blast
next
  fix s' assume "schedule s = Inr s'"
  then show "thread_ticks s' = 0" by (rule schedule_fields)
next
  fix s' assume "do_schedule st s = Inr s'"
  then have "schedule (set_status (cur s) st (drained s)) = Inr s'" by (rule do_schedule_Inr)
  then show "thread_ticks s' = 0" by (rule schedule_fields)
qed

theorem thread_tick_time_slice_witness:
  "thread_current ex_state = Inr 0x1000 \<and> thread_ticks ex_state = 0
   \<and> \<not> yield_on_return ex_state
   \<and> (\<exists>s'. thread_tick ex_state = Inr s' \<and> thread_ticks s' = 1 \<and> \<not> yield_on_return s')
   \<and> (\<exists>s3 s4. thread_tick_n 3 ex_state = Inr s3 \<and> \<not> yield_on_return s3
           \<and> thread_tick s3 = Inr s4 \<and> yield_on_return s4 \<and> thread_ticks s4 = 4)
   \<and> (\<exists>s'. schedule (set_status 0x1000 THREAD_BLOCKED (ex_state\<lparr>thread_ticks := 2\<rparr>)) = Inr s'
          \<and> thread_ticks s' = 0)"
proof -
  have c: "thread_current ex_state = Inr 0x1000"
    by (simp add: thread_current_def running_thread_def Let_def ex_defs)
  have z: "thread_ticks ex_state = 0" "\<not> yield_on_return ex_state"
    by (simp_all add: ex_state_def boot_def)
  note T = thread_tick_time_slice[of ex_state "0x1000" THREAD_READY]
  from T c have "\<exists>s'. thread_tick ex_state = Inr s' \<and> thread_ticks s' = thread_ticks ex_state + 1
           \<and> (yield_on_return s' \<longleftrightarrow> yield_on_return ex_state \<or> TIME_SLICE \<le> thread_ticks ex_state + 1)"
    by blast
  then have p1: "\<exists>s'. thread_tick ex_state = Inr s' \<and> thread_ticks s' = 1 \<and> \<not> yield_on_return s'"
    using z by (simp add: TIME_SLICE_def word_le_nat_alt)
  from T c z have "\<exists>s3 s4. thread_tick_n 3 ex_state = Inr s3 \<and> \<not> yield_on_return s3
           \<and> thread_tick s3 = Inr s4 \<and> yield_on_return s4 \<and> thread_ticks s4 = TIME_SLICE"
    by blast
  then have p2: "\<exists>s3 s4. thread_tick_n 3 ex_state = Inr s3 \<and> \<not> yield_on_return s3
           \<and> thread_tick s3 = Inr s4 \<and> yield_on_return s4 \<and> thread_ticks s4 = 4"
    by (simp add: TIME_SLICE_def)
  let ?b = "set_status 0x1000 THREAD_BLOCKED (ex_state\<lparr>thread_ticks := 2\<rparr>)"
  have "\<exists>s'. schedule ?b = Inr s'"
    by (simp add: schedule_def thread_launch_def do_iret_def
         next_thread_to_run_def intr_get_level_def running_thread_def
         set_status_def Let_def ex_defs)
  then obtain s' where e: "schedule ?b = Inr s'" by blast
  from thread_tick_time_slice[of ?b "0x1000" THREAD_READY] e have "thread_ticks s' = 0"
    by blast
  with e have p3: "\<exists>s'. schedule ?b = Inr s' \<and> thread_ticks s' = 0" by blast
  from c z p1 p2 p3 show ?thesis by blast
qed

lemma sint_add_small:
  fixes c :: "32 word"
  assumes "0 \<le> sint c" "sint c + int k < 2 ^ 31"
  shows "sint (c + of_nat k) = sint c + int k"
proof -
  have "c + of_nat k = word_of_int (sint c + int k)"
    by simp
  then have "sint (c + of_nat k) = signed_take_bit 31 (sint c + int k)"
    by (simp only: sint_sbintrunc') simp
  also have "\<dots> = sint c + int k"
    using assms by (intro signed_take_bit_int_eq_self) simp_all
  finally show ?thesis .
qed

lemma allocate_tid_result:
  "allocate_tid s = (next_tid s, s\<lparr>tid_lock := NULL, next_tid := next_tid s + 1\<rparr>)"
  by (simp add: allocate_tid_def lock_acquire_def lock_release_def Let_def)

lemma init_thread_ok:
  assumes "t \<noteq> NULL" "PRI_MIN \<le> prio" "prio \<le> PRI_MAX"
  shows "init_thread t nm prio s =
     Inr (s\<lparr>mem := (mem s)(t := \<lparr>tid = 0, status = THREAD_BLOCKED, name = take 15 nm,
        priority = prio, wakeup_ticks = 0, tf = zero_frame\<lparr>rsp := t + PGSIZE - 8\<rparr>,
        magic = THREAD_MAGIC\<rparr>)\<rparr>)"
  using assms by (simp add: init_thread_def Let_def zero_thread_def)

lemma thread_create_ok:
  assumes "free_pages s = p # ps" "p \<noteq> NULL" "function \<noteq> 0"
    "PRI_MIN \<le> prio" "prio \<le> PRI_MAX"
  shows "thread_create nm prio function aux s =
     Inr (next_tid s,
          s\<lparr>free_pages := ps,
            mem := (mem s)(p := created_thread p nm prio function aux (next_tid s)),
            tid_lock := NULL, next_tid := next_tid s + 1,
            ready_list := ready_list s @ [p]\<rparr>)"
  using assms
  by (cases "eflags (cpu s) AND FLAG_IF = 0")
     (simp_all add: thread_create_def palloc_get_page_def init_thread_def allocate_tid_def
        lock_acquire_def lock_release_def thread_unblock_def thread_unblock_trace_def is_thread_def t_status_def
        set_status_def Let_def created_thread_def zero_thread_def zero_frame_def zero_regs_def
        intr_set_level_def intr_get_level_def intr_disable_def intr_enable_def
        flag_keep_off flag_keep_on flag_off word_bw_assocs)

lemma thread_create_cases:
  assumes "thread_create nm prio function aux s = Inr (r, s')"
  shows "(r = TID_ERROR \<and> next_tid s' = next_tid s)
       \<or> (r = next_tid s \<and> next_tid s' = next_tid s + 1)"
proof (cases "free_pages s")
  case Nil
  with assms show ?thesis
    by (auto simp: thread_create_def palloc_get_page_def split: if_splits)
next
  case (Cons p ps)
  show ?thesis
  proof (cases "p = NULL \<or> function = 0 \<or> \<not> (PRI_MIN \<le> prio \<and> prio \<le> PRI_MAX)")
    case True
    with assms Cons show ?thesis
      by (auto simp: thread_create_def palloc_get_page_def init_thread_def split: if_splits)
  next
    case False
    with assms Cons thread_create_ok[of s p ps "function" prio nm aux] show ?thesis
      by auto
  qed
qed

lemma allocate_tids_result:
  "fst (allocate_tids n s) = map (\<lambda>k. next_tid s + of_nat k) [0..<n]
   \<and> next_tid (snd (allocate_tids n s)) = next_tid s + of_nat n"
proof (induction n arbitrary: s)
  case 0
  then show ?case by simp
next
  case (Suc n)
  let ?s1 = "s\<lparr>tid_lock := NULL, next_tid := next_tid s + 1\<rparr>"
  have "map (\<lambda>k. next_tid s + of_nat k) [0..<Suc n]
        = next_tid s # map (\<lambda>k. next_tid ?s1 + of_nat k) [0..<n]"
    by (simp add: upt_conv_Cons map_Suc_upt[symmetric] add.assoc del: upt_Suc)
  then show ?case
    using Suc.IH[of ?s1]
    by (simp add: allocate_tid_result split_beta add.assoc del: upt_Suc)
qed

lemma sint_TID_ERROR: "sint TID_ERROR = - 1"
  by (simp add: TID_ERROR_def)

lemma thread_creates_ids:
  assumes "thread_creates args s = Inr (rs, s')"
    and "args \<noteq> [] \<longrightarrow> 0 < sint (next_tid s) \<and> sint (next_tid s) + int (length args) \<le> 2 ^ 31"
  shows "\<exists>m \<le> length args.
           filter (\<lambda>r. r \<noteq> TID_ERROR) rs = map (\<lambda>k. next_tid s + of_nat k) [0..<m]
           \<and> next_tid s' = next_tid s + of_nat m"
  using assms
proof (induction args arbitrary: s rs s')
  case Nil
  then show ?case by simp
next
  case (Cons a rest)
  obtain nm prio f aux where a: "a = (nm, prio, f, aux)" by (cases a) auto
  from Cons.prems(1) a obtain r s1 rs1 where
    c: "thread_create nm prio f aux s = Inr (r, s1)"
    and r: "thread_creates rest s1 = Inr (rs1, s')" and rs: "rs = r # rs1"
    by (auto split: sum.splits prod.splits)
  from Cons.prems(2) have b: "0 < sint (next_tid s)"
     "sint (next_tid s) + int (length rest) + 1 \<le> 2 ^ 31" by simp_all
  from thread_create_cases[OF c]
  show ?case
  proof
    assume e: "r = TID_ERROR \<and> next_tid s1 = next_tid s"
    with b have "rest \<noteq> [] \<longrightarrow>
       0 < sint (next_tid s1) \<and> sint (next_tid s1) + int (length rest) \<le> 2 ^ 31" by simp
    from Cons.IH[OF r this] obtain m where
      "m \<le> length rest" "filter (\<lambda>r. r \<noteq> TID_ERROR) rs1 = map (\<lambda>k. next_tid s1 + of_nat k) [0..<m]"
      "next_tid s' = next_tid s1 + of_nat m" by blast
    with e rs have "m \<le> length (a # rest) \<and>
           filter (\<lambda>r. r \<noteq> TID_ERROR) rs = map (\<lambda>k. next_tid s + of_nat k) [0..<m]
           \<and> next_tid s' = next_tid s + of_nat m" by simp
    then show ?thesis by blast
  next
    assume e: "r = next_tid s \<and> next_tid s1 = next_tid s + 1"
    have ne: "r \<noteq> TID_ERROR"
    proof
      assume "r = TID_ERROR"
      with e have "sint (next_tid s) = - 1" by (simp add: sint_TID_ERROR)
      with b show False by simp
    qed
    have "rest \<noteq> [] \<longrightarrow>
       0 < sint (next_tid s1) \<and> sint (next_tid s1) + int (length rest) \<le> 2 ^ 31"
    proof
      assume "rest \<noteq> []"
      then have "1 \<le> int (length rest)" by (cases rest) simp_all
      with b have "sint (next_tid s) + int 1 < 2 ^ 31" by simp
      with b have "sint (next_tid s + of_nat 1) = sint (next_tid s) + int 1"
        by (intro sint_add_small) simp_all
      with e b show "0 < sint (next_tid s1) \<and> sint (next_tid s1) + int (length rest) \<le> 2 ^ 31"
        by simp
    qed
    from Cons.IH[OF r this] obtain m where m:
      "m \<le> length rest" "filter (\<lambda>r. r \<noteq> TID_ERROR) rs1 = map (\<lambda>k. next_tid s1 + of_nat k) [0..<m]"
      "next_tid s' = next_tid s1 + of_nat m" by blast
    have "map (\<lambda>k. next_tid s + of_nat k) [0..<Suc m]
        = next_tid s # map (\<lambda>k. next_tid s1 + of_nat k) [0..<m]"
      using e by (simp add: upt_conv_Cons map_Suc_upt[symmetric] add.assoc del: upt_Suc)
    with e rs ne m have "Suc m \<le> length (a # rest) \<and>
           filter (\<lambda>r. r \<noteq> TID_ERROR) rs = map (\<lambda>k. next_tid s + of_nat k) [0..<Suc m]
           \<and> next_tid s' = next_tid s + of_nat (Suc m)"
      by (simp add: add.assoc del: upt_Suc)
    then show ?thesis by blast
  qed
qed

lemma consecutive_ids:
  fixes c :: "32 word"
  assumes "0 < sint c" "sint c + int m \<le> 2 ^ 31"
  shows "sorted_wrt (\<lambda>a b. sint a < sint b) (map (\<lambda>k. c + of_nat k) [0..<m])"
    and "distinct (map (\<lambda>k. c + of_nat k) [0..<m])"
    and "0 \<notin> set (map (\<lambda>k. c + of_nat k) [0..<m])"
    and "TID_ERROR \<notin> set (map (\<lambda>k. c + of_nat k) [0..<m])"
proof -
  have s: "sint (c + of_nat k) = sint c + int k" if "k < m" for k
    using that assms by (intro sint_add_small) simp_all
  show "sorted_wrt (\<lambda>a b. sint a < sint b) (map (\<lambda>k. c + of_nat k) [0..<m])"
    by (simp add: sorted_wrt_map sorted_wrt_iff_nth_less s)
  show "distinct (map (\<lambda>k. c + of_nat k) [0..<m])"
  proof (simp add: distinct_map, rule inj_onI)
    fix x y assume "x \<in> {0..<m}" "y \<in> {0..<m}" "c + of_nat x = c + of_nat y"
    then have "sint (c + of_nat x) = sint (c + of_nat y)" "x < m" "y < m" by simp_all
    then show "x = y" by (simp add: s)
  qed
  show "0 \<notin> set (map (\<lambda>k. c + of_nat k) [0..<m])"
  proof
    assume "0 \<in> set (map (\<lambda>k. c + of_nat k) [0..<m])"
    then obtain k where "k < m" "c + of_nat k = 0" by auto
    then have "sint c + int k = 0" using s[of k] by simp
    with assms show False by simp
  qed
  show "TID_ERROR \<notin> set (map (\<lambda>k. c + of_nat k) [0..<m])"
  proof
    assume "TID_ERROR \<in> set (map (\<lambda>k. c + of_nat k) [0..<m])"
    then obtain k where "k < m" "c + of_nat k = TID_ERROR" by auto
    then have "sint c + int k = - 1" using s[of k] by (simp add: sint_TID_ERROR)
    with assms show False by simp
  qed
qed

lemma thread_creates_Cons:
  assumes "thread_create nm prio f aux s = Inr (r, s1)"
    and "thread_creates rest s1 = Inr (rs, s2)"
  shows "thread_creates ((nm, prio, f, aux) # rest) s = Inr (r # rs, s2)"
  using assms by simp

lemma thread_create_ok_ex:
  assumes "free_pages s = p # ps" "p \<noteq> NULL"
  shows "\<exists>s1. thread_create nm 31 0x400000 0 s = Inr (next_tid s, s1)
            \<and> free_pages s1 = ps \<and> next_tid s1 = next_tid s + 1"
  using thread_create_ok[OF assms, of "0x400000" 31 nm 0]
  by (simp add: PRI_MIN_def PRI_MAX_def)

text \<open>Claim C8, as stated, fails once the 32-bit counter overflows. After 2147483646 allocations from start-up the counter holds the largest positive identity; the next two creations return 0x7fffffff and then 0x80000000, which as a signed \<^verbatim>\<open>tid_t\<close> is negative: the returned identities are not increasing.\<close>

theorem allocate_tid_wraps:
  "next_tid (snd (allocate_tids 2147483646 (boot ex_mem zero_frame 0x1000 []))) = 0x7fffffff
   \<and> (\<exists>s'. thread_creates [(''a'', 31, 0x400000, 0), (''b'', 31, 0x400000, 0)]
               (ex_state\<lparr>next_tid := 0x7fffffff\<rparr>) = Inr ([0x7fffffff, 0x80000000], s'))
   \<and> \<not> sint (0x7fffffff :: tid_t) < sint (0x80000000 :: tid_t)
   \<and> \<not> sorted_wrt (\<lambda>a b. sint a < sint b)
          (filter (\<lambda>r. r \<noteq> TID_ERROR) [0x7fffffff, 0x80000000 :: tid_t])"
proof -
  have a: "next_tid (snd (allocate_tids 2147483646 (boot ex_mem zero_frame 0x1000 []))) = 0x7fffffff"
    using allocate_tids_result[of 2147483646 "boot ex_mem zero_frame 0x1000 []"]
    by (simp add: boot_def)
  define s0 where "s0 = ex_state\<lparr>next_tid := 0x7fffffff\<rparr>"
  have f0: "free_pages s0 = 0x5000 # [0x6000]" "next_tid s0 = 0x7fffffff"
    by (simp_all add: s0_def ex_state_def boot_def)
  from thread_create_ok_ex[OF f0(1), of "''a''"] obtain s1 where
    c1: "thread_create ''a'' 31 0x400000 0 s0 = Inr (0x7fffffff, s1)"
    and f1: "free_pages s1 = 0x6000 # []" "next_tid s1 = 0x80000000"
    by (auto simp: f0 NULL_def)
  from thread_create_ok_ex[OF f1(1), of "''b''"] obtain s2 where
    c2: "thread_create ''b'' 31 0x400000 0 s1 = Inr (0x80000000, s2)"
    by (auto simp: f1 NULL_def)
  have "thread_creates [] s2 = Inr ([], s2)" by simp
  from thread_creates_Cons[OF c1 thread_creates_Cons[OF c2 this]]
  have b: "\<exists>s'. thread_creates [(''a'', 31, 0x400000, 0), (''b'', 31, 0x400000, 0)]
               (ex_state\<lparr>next_tid := 0x7fffffff\<rparr>) = Inr ([0x7fffffff, 0x80000000], s')"
    unfolding s0_def by blast
  have c: "\<not> sint (0x7fffffff :: tid_t) < sint (0x80000000 :: tid_t)" by simp
  have d: "\<not> sorted_wrt (\<lambda>a b. sint a < sint b)
          (filter (\<lambda>r. r \<noteq> TID_ERROR) [0x7fffffff, 0x80000000 :: tid_t])"
    by (simp add: TID_ERROR_def)
  from a b c d show ?thesis by blast
qed

text \<open>Claim C8, amended: the counter starts at 1; \<^verbatim>\<open>allocate_tid\<close> reads and post-increments it between acquiring and releasing the lock. Across any sequence of thread creations during which the counter stays within the positive range of a 32-bit \<^verbatim>\<open>int\<close>, the identities returned by the successful creations are consecutive counter values: strictly increasing, without repetition, and never zero.\<close>

theorem allocate_tid_increasing:
  "next_tid (boot m regs stack_page pool) = 1
   \<and> tid_lock (lock_acquire s) = running_thread s
   \<and> allocate_tid s =
        (next_tid (lock_acquire s),
         lock_release ((lock_acquire s)\<lparr>next_tid := next_tid (lock_acquire s) + 1\<rparr>))
   \<and> fst (allocate_tid s) = next_tid s
   \<and> next_tid (snd (allocate_tid s)) = next_tid s + 1
   \<and> (0 < sint (next_tid s) \<and> sint (next_tid s) + int (length args) \<le> 2 ^ 31
        \<and> thread_creates args s = Inr (rs, s') \<longrightarrow>
        sorted_wrt (\<lambda>a b. sint a < sint b) (filter (\<lambda>r. r \<noteq> TID_ERROR) rs)
        \<and> distinct (filter (\<lambda>r. r \<noteq> TID_ERROR) rs)
        \<and> 0 \<notin> set (filter (\<lambda>r. r \<noteq> TID_ERROR) rs)
        \<and> (\<exists>m \<le> length args.
              filter (\<lambda>r. r \<noteq> TID_ERROR) rs = map (\<lambda>k. next_tid s + of_nat k) [0..<m]))"
proof (intro conjI impI)
  show "next_tid (boot m regs stack_page pool) = 1" by (simp add: boot_def)
  show "tid_lock (lock_acquire s) = running_thread s" by (simp add: lock_acquire_def)
  show "allocate_tid s =
        (next_tid (lock_acquire s),
         lock_release ((lock_acquire s)\<lparr>next_tid := next_tid (lock_acquire s) + 1\<rparr>))"
    by (simp add: allocate_tid_def Let_def)
  show "fst (allocate_tid s) = next_tid s" by (simp add: allocate_tid_result)
  show "next_tid (snd (allocate_tid s)) = next_tid s + 1" by (simp add: allocate_tid_result)
next
  assume h: "0 < sint (next_tid s) \<and> sint (next_tid s) + int (length args) \<le> 2 ^ 31
        \<and> thread_creates args s = Inr (rs, s')"
  then have "\<exists>m \<le> length args.
           filter (\<lambda>r. r \<noteq> TID_ERROR) rs = map (\<lambda>k. next_tid s + of_nat k) [0..<m]
           \<and> next_tid s' = next_tid s + of_nat m"
    by (intro thread_creates_ids) simp_all
  then obtain m where m: "m \<le> length args"
    "filter (\<lambda>r. r \<noteq> TID_ERROR) rs = map (\<lambda>k. next_tid s + of_nat k) [0..<m]" by blast
  with h have b: "0 < sint (next_tid s)" "sint (next_tid s) + int m \<le> 2 ^ 31" by simp_all
  show "sorted_wrt (\<lambda>a b. sint a < sint b) (filter (\<lambda>r. r \<noteq> TID_ERROR) rs)"
    unfolding m(2) by (rule consecutive_ids[OF b])
  show "distinct (filter (\<lambda>r. r \<noteq> TID_ERROR) rs)"
    unfolding m(2) by (rule consecutive_ids[OF b])
  show "0 \<notin> set (filter (\<lambda>r. r \<noteq> TID_ERROR) rs)"
    unfolding m(2) by (rule consecutive_ids[OF b])
  from m show "\<exists>m \<le> length args.
              filter (\<lambda>r. r \<noteq> TID_ERROR) rs = map (\<lambda>k. next_tid s + of_nat k) [0..<m]"
    by blast
qed

theorem allocate_tid_increasing_witness:
  "0 < sint (next_tid ex_state)
   \<and> sint (next_tid ex_state) + int (length [(''a'', 31::int, 0x400000 :: 64 word, 0 :: 64 word),
        (''b'', 31, 0x400000, 0), (''c'', 31, 0x400000, 0)]) \<le> 2 ^ 31
   \<and> (\<exists>s'. thread_creates [(''a'', 31, 0x400000, 0), (''b'', 31, 0x400000, 0),
               (''c'', 31, 0x400000, 0)] ex_state = Inr ([5, 6, TID_ERROR], s'))
   \<and> sorted_wrt (\<lambda>a b. sint a < sint b) (filter (\<lambda>r. r \<noteq> TID_ERROR) [5, 6, TID_ERROR])
   \<and> distinct (filter (\<lambda>r. r \<noteq> TID_ERROR) [5, 6, TID_ERROR])
   \<and> 0 \<notin> set (filter (\<lambda>r. r \<noteq> TID_ERROR) [5, 6, TID_ERROR])"
proof -
  let ?args = "[(''a'', 31::int, 0x400000 :: 64 word, 0 :: 64 word), (''b'', 31, 0x400000, 0),
     (''c'', 31, 0x400000, 0)]"
  have f0: "free_pages ex_state = 0x5000 # [0x6000]" "next_tid ex_state = 5"
    by (simp_all add: ex_state_def boot_def)
  from thread_create_ok_ex[OF f0(1), of "''a''"] obtain s1 where
    c1: "thread_create ''a'' 31 0x400000 0 ex_state = Inr (5, s1)"
    and f1: "free_pages s1 = 0x6000 # []" "next_tid s1 = 6"
    by (auto simp: f0 NULL_def)
  from thread_create_ok_ex[OF f1(1), of "''b''"] obtain s2 where
    c2: "thread_create ''b'' 31 0x400000 0 s1 = Inr (6, s2)"
    and f2: "free_pages s2 = []"
    by (auto simp: f1 NULL_def)
  have c3: "thread_create ''c'' 31 0x400000 0 s2 = Inr (TID_ERROR, s2)"
    using f2 by (simp add: thread_create_def palloc_get_page_def)
  have "thread_creates [] s2 = Inr ([], s2)" by simp
  from thread_creates_Cons[OF c1 thread_creates_Cons[OF c2 thread_creates_Cons[OF c3 this]]]
  have r: "thread_creates ?args ex_state = Inr ([5, 6, TID_ERROR], s2)" .
  have h: "0 < sint (next_tid ex_state) \<and> sint (next_tid ex_state) + int (length ?args) \<le> 2 ^ 31"
    by (simp add: f0)
  from allocate_tid_increasing[of ex_mem zero_frame "0x1000" "[]" ex_state ?args
      "[5, 6, TID_ERROR]" s2] h r
  have "sorted_wrt (\<lambda>a b. sint a < sint b) (filter (\<lambda>r. r \<noteq> TID_ERROR) [5, 6, TID_ERROR])
        \<and> distinct (filter (\<lambda>r. r \<noteq> TID_ERROR) [5, 6, TID_ERROR])
        \<and> 0 \<notin> set (filter (\<lambda>r. r \<noteq> TID_ERROR) [5, 6, TID_ERROR])"
    by blast
  with h r show ?thesis by blast
qed

lemma time_slice_le_iff:
  fixes c :: "32 word"
  shows "TIME_SLICE \<le> c \<longleftrightarrow> 4 \<le> unat c"
  by (simp add: TIME_SLICE_def word_le_nat_alt)

lemma unat_ticks_add:
  fixes c :: "32 word"
  assumes "unat c + n + 1 < 2 ^ 32"
  shows "unat (c + of_nat n + 1) = unat c + n + 1"
proof -
  have e: "c + of_nat n + 1 = c + of_nat (Suc n)" by (simp add: add.assoc add.commute)
  have "unat (of_nat (Suc n) :: 32 word) = Suc n"
    using assms by (simp add: unat_of_nat take_bit_nat_eq_self del: of_nat_Suc)
  then have "unat (c + of_nat (Suc n)) = unat c + Suc n"
    using assms by (simp add: unat_word_ariths take_bit_nat_eq_self del: of_nat_Suc)
  then show ?thesis by (simp only: e)
qed

text \<open>Claim C10, amended: a tick requests a yield exactly when the incremented counter (modulo \<open>2 ^ 32\<close>) is at least \<^verbatim>\<open>TIME_SLICE\<close>, not only when it equals it; a request once raised is not withdrawn by later ticks; and when the quantum has expired and no scheduling decision intervenes, every later tick raises the request again, as long as the 32-bit counter has not wrapped around.\<close>

theorem thread_tick_reraises:
  "(thread_current s = Inr t \<longrightarrow>
      (\<exists>s'. thread_tick (s\<lparr>yield_on_return := False\<rparr>) = Inr s'
          \<and> thread_ticks s' = thread_ticks s + 1
          \<and> (yield_on_return s' \<longleftrightarrow> TIME_SLICE \<le> thread_ticks s + 1)))
   \<and> (thread_current s = Inr t \<and> yield_on_return s \<longrightarrow>
        (\<exists>s'. thread_tick s = Inr s' \<and> yield_on_return s'))
   \<and> (thread_current s = Inr t \<and> TIME_SLICE \<le> thread_ticks s + 1
        \<and> unat (thread_ticks s) + n + 1 < 2 ^ 32 \<longrightarrow>
        (\<exists>sn s'. thread_tick_n n s = Inr sn \<and> thread_ticks sn = thread_ticks s + of_nat n
           \<and> thread_tick (sn\<lparr>yield_on_return := False\<rparr>) = Inr s' \<and> yield_on_return s'))"
proof (intro conjI impI)
  assume c: "thread_current s = Inr t"
  have "thread_current (s\<lparr>yield_on_return := False\<rparr>) = thread_current s"
    by (rule thread_current_Inr_cong) simp_all
  with c have "thread_current (s\<lparr>yield_on_return := False\<rparr>) = Inr t" by simp
  from thread_tick_Inr[OF this]
  show "\<exists>s'. thread_tick (s\<lparr>yield_on_return := False\<rparr>) = Inr s'
          \<and> thread_ticks s' = thread_ticks s + 1
          \<and> (yield_on_return s' \<longleftrightarrow> TIME_SLICE \<le> thread_ticks s + 1)"
    by simp
next
  assume "thread_current s = Inr t \<and> yield_on_return s"
  then show "\<exists>s'. thread_tick s = Inr s' \<and> yield_on_return s'"
    by (simp add: thread_tick_Inr)
next
  assume h: "thread_current s = Inr t \<and> TIME_SLICE \<le> thread_ticks s + 1
        \<and> unat (thread_ticks s) + n + 1 < 2 ^ 32"
  then have c: "thread_current s = Inr t" by simp
  from thread_tick_n_fields[OF c, of n] obtain sn where sn:
    "thread_tick_n n s = Inr sn" "thread_ticks sn = thread_ticks s + of_nat n"
    "cur sn = cur s" "mem sn = mem s" by blast
  have "thread_current (sn\<lparr>yield_on_return := False\<rparr>) = thread_current s"
    by (rule thread_current_Inr_cong) (simp_all add: sn)
  with c have c': "thread_current (sn\<lparr>yield_on_return := False\<rparr>) = Inr t" by simp
  from h have "unat (thread_ticks s) + 0 + 1 < 2 ^ 32" by simp
  from unat_ticks_add[OF this] h have "3 \<le> unat (thread_ticks s)"
    by (simp add: time_slice_le_iff)
  moreover from h have "unat (thread_ticks s + of_nat n + 1) = unat (thread_ticks s) + n + 1"
    by (intro unat_ticks_add) simp
  ultimately have "TIME_SLICE \<le> thread_ticks sn + 1"
    by (simp add: time_slice_le_iff sn)
  with thread_tick_Inr[OF c'] sn
  show "\<exists>sn s'. thread_tick_n n s = Inr sn \<and> thread_ticks sn = thread_ticks s + of_nat n
           \<and> thread_tick (sn\<lparr>yield_on_return := False\<rparr>) = Inr s' \<and> yield_on_return s'"
    by simp
qed

lemma ex_state_current: "thread_current ex_state = Inr 0x1000"
  by (simp add: thread_current_def running_thread_def Let_def ex_defs)

theorem thread_tick_reraises_witness:
  "thread_current (ex_state\<lparr>thread_ticks := 3\<rparr>) = Inr 0x1000
   \<and> TIME_SLICE \<le> thread_ticks (ex_state\<lparr>thread_ticks := 3\<rparr>) + 1
   \<and> unat (thread_ticks (ex_state\<lparr>thread_ticks := 3\<rparr>)) + 5 + 1 < (2::nat) ^ 32
   \<and> (\<exists>sn s'. thread_tick_n 5 (ex_state\<lparr>thread_ticks := 3\<rparr>) = Inr sn \<and> thread_ticks sn = 8
           \<and> thread_tick (sn\<lparr>yield_on_return := False\<rparr>) = Inr s' \<and> yield_on_return s')
   \<and> (\<exists>s'. thread_tick (ex_state\<lparr>thread_ticks := 3, yield_on_return := False\<rparr>) = Inr s'
           \<and> yield_on_return s')
   \<and> yield_on_return (ex_state\<lparr>thread_ticks := 3, yield_on_return := True\<rparr>)
   \<and> (\<exists>s'. thread_tick (ex_state\<lparr>thread_ticks := 3, yield_on_return := True\<rparr>) = Inr s'
           \<and> yield_on_return s')"
proof -
  let ?s = "ex_state\<lparr>thread_ticks := 3\<rparr>"
  have "thread_current ?s = thread_current ex_state"
    by (rule thread_current_Inr_cong) simp_all
  then have c: "thread_current ?s = Inr 0x1000" by (simp add: ex_state_current)
  have h: "TIME_SLICE \<le> thread_ticks ?s + 1" "unat (thread_ticks ?s) + 5 + 1 < (2::nat) ^ 32"
    by (simp_all add: TIME_SLICE_def)
  note T = thread_tick_reraises[of ?s "0x1000" 5]
  from T c h have "\<exists>sn s'. thread_tick_n 5 ?s = Inr sn \<and> thread_ticks sn = thread_ticks ?s + of_nat 5
           \<and> thread_tick (sn\<lparr>yield_on_return := False\<rparr>) = Inr s' \<and> yield_on_return s'"
    by blast
  then have p1: "\<exists>sn s'. thread_tick_n 5 ?s = Inr sn \<and> thread_ticks sn = 8
           \<and> thread_tick (sn\<lparr>yield_on_return := False\<rparr>) = Inr s' \<and> yield_on_return s'"
    by simp
  from T c have "\<exists>s'. thread_tick (?s\<lparr>yield_on_return := False\<rparr>) = Inr s'
          \<and> (yield_on_return s' \<longleftrightarrow> TIME_SLICE \<le> thread_ticks ?s + 1)"
    by blast
  with h have p2: "\<exists>s'. thread_tick (ex_state\<lparr>thread_ticks := 3, yield_on_return := False\<rparr>) = Inr s'
           \<and> yield_on_return s'"
    by simp
  let ?y = "ex_state\<lparr>thread_ticks := 3, yield_on_return := True\<rparr>"
  have "thread_current ?y = thread_current ex_state"
    by (rule thread_current_Inr_cong) simp_all
  then have cy: "thread_current ?y = Inr 0x1000" by (simp add: ex_state_current)
  have y: "yield_on_return ?y" by simp
  from thread_tick_reraises[of ?y "0x1000" 0] cy y
  have p3: "\<exists>s'. thread_tick ?y = Inr s' \<and> yield_on_return s'"
    by blast
  from c h p1 p2 y p3 show ?thesis by blast
qed

text \<open>Claim C10, as stated, fails when the unsigned counter wraps: after 4294967295 ticks without a scheduling decision the counter is 0xFFFFFFFF and the request is pending; on the next tick the counter becomes 0 and the request is not raised again, although no scheduling decision has reset the counter.\<close>

theorem thread_tick_wraps:
  "\<exists>sN s'. thread_tick_n 4294967295 ex_state = Inr sN
      \<and> thread_ticks sN = 0xFFFFFFFF \<and> yield_on_return sN
      \<and> thread_tick (sN\<lparr>yield_on_return := False\<rparr>) = Inr s'
      \<and> thread_ticks s' = 0 \<and> \<not> yield_on_return s'"
proof -
  from thread_tick_n_fields[OF ex_state_current, of 4294967295] obtain sN where sN:
    "thread_tick_n 4294967295 ex_state = Inr sN"
    "thread_ticks sN = thread_ticks ex_state + of_nat 4294967295"
    "cur sN = cur ex_state" "mem sN = mem ex_state"
    "yield_on_return sN \<longleftrightarrow> yield_on_return ex_state
        \<or> (\<exists>k<4294967295. TIME_SLICE \<le> thread_ticks ex_state + of_nat k + 1)"
    by blast
  have z: "thread_ticks ex_state = 0" by (simp add: ex_state_def boot_def)
  have t: "thread_ticks sN = 0xFFFFFFFF" by (simp add: sN z)
  have "(3::nat) < 4294967295 \<and> TIME_SLICE \<le> thread_ticks ex_state + of_nat 3 + 1"
    by (simp add: z TIME_SLICE_def)
  then have "\<exists>k<4294967295. TIME_SLICE \<le> thread_ticks ex_state + of_nat k + 1" by blast
  with sN have y: "yield_on_return sN" by simp
  have "thread_current (sN\<lparr>yield_on_return := False\<rparr>) = thread_current ex_state"
    by (rule thread_current_Inr_cong) (simp_all add: sN)
  then have c: "thread_current (sN\<lparr>yield_on_return := False\<rparr>) = Inr 0x1000"
    by (simp add: ex_state_current)
  from thread_tick_Inr[OF c] t
  have "\<exists>s'. thread_tick (sN\<lparr>yield_on_return := False\<rparr>) = Inr s'
      \<and> thread_ticks s' = 0 \<and> \<not> yield_on_return s'"
    by (simp add: TIME_SLICE_def)
  with sN(1) t y show ?thesis by blast
qed

subsection \<open>Well-formed queues\<close>

lemma valid_queue_upd_notin:
  "t \<notin> set q \<Longrightarrow> valid_queue (m(t := th)) q st = valid_queue m q st"
  by (auto simp: valid_queue_def list_all_iff)

lemma valid_queue_upd_same:
  "magic th = magic (m t) \<Longrightarrow> status th = status (m t) \<Longrightarrow>
   valid_queue (m(t := th)) q st = valid_queue m q st"
  by (auto simp: valid_queue_def list_all_iff)

lemma valid_queue_snoc:
  "valid_queue m (q @ [t]) st \<longleftrightarrow>
     valid_queue m q st \<and> t \<notin> set q \<and> t \<noteq> NULL \<and> magic (m t) = THREAD_MAGIC
     \<and> status (m t) = st"
  by (auto simp: valid_queue_def list_all_iff)

lemma valid_queue_Nil: "valid_queue m [] st"
  by (simp add: valid_queue_def)

lemma valid_queue_member:
  "valid_queue m q st \<Longrightarrow> t \<in> set q \<Longrightarrow>
     t \<noteq> NULL \<and> magic (m t) = THREAD_MAGIC \<and> status (m t) = st"
  by (auto simp: valid_queue_def list_all_iff)

lemma valid_queue_other_status:
  "valid_queue m q st \<Longrightarrow> status (m t) \<noteq> st \<Longrightarrow> t \<notin> set q"
  by (auto simp: valid_queue_def list_all_iff)

lemma valid_queue_disjoint:
  "valid_queue m q st \<Longrightarrow> valid_queue m q' st' \<Longrightarrow> st \<noteq> st' \<Longrightarrow> set q \<inter> set q' = {}"
  by (auto simp: valid_queue_def list_all_iff)

lemma valid_queue_distinct: "valid_queue m q st \<Longrightarrow> distinct q"
  by (simp add: valid_queue_def)

lemma deadline_le_upd:
  "wakeup_ticks th = wakeup_ticks (m t) \<Longrightarrow> deadline_le (m(t := th)) = deadline_le m"
  by (auto simp: deadline_le_def fun_eq_iff)

lemma sorted_deadline_upd:
  "t \<notin> set xs \<Longrightarrow> sorted_wrt (deadline_le (m(t := th))) xs = sorted_wrt (deadline_le m) xs"
  by (induction xs) (auto simp: deadline_le_def)

lemma sched_inv_cur_not_queued:
  assumes "sched_inv s"
  shows "cur s \<notin> set (ready_list s)" and "cur s \<notin> set (sleep_list s)"
    and "cur s \<notin> set (destruction_req s)" and "cur s \<notin> set (free_pages s)"
    and "cur s \<noteq> NULL"
proof -
  from assms have r: "status (mem s (cur s)) = THREAD_RUNNING" "cur s \<noteq> NULL"
    and q: "queues_ok s"
    by (simp_all add: sched_inv_def is_thread_def t_status_def)
  from q have v: "valid_queue (mem s) (ready_list s) THREAD_READY"
    "valid_queue (mem s) (sleep_list s) THREAD_BLOCKED"
    "valid_queue (mem s) (destruction_req s) THREAD_DYING"
    "cur s \<notin> set (free_pages s)"
    by (simp_all add: queues_ok_def)
  show "cur s \<notin> set (ready_list s)" by (rule valid_queue_other_status[OF v(1)]) (simp add: r)
  show "cur s \<notin> set (sleep_list s)" by (rule valid_queue_other_status[OF v(2)]) (simp add: r)
  show "cur s \<notin> set (destruction_req s)"
    by (rule valid_queue_other_status[OF v(3)]) (simp add: r)
  show "cur s \<notin> set (free_pages s)" by (rule v(4))
  show "cur s \<noteq> NULL" by (rule r(2))
qed

lemma sched_inv_idle_not_ready:
  "sched_inv s \<Longrightarrow> idle_thread s \<notin> set (ready_list s)"
  by (simp add: sched_inv_def queues_ok_def)

lemma queues_ok_cpu: "queues_ok (s\<lparr>cpu := c\<rparr>) = queues_ok s"
  by (simp add: queues_ok_def)

lemma sched_inv_cpu: "sched_inv (s\<lparr>cpu := c\<rparr>) = sched_inv s"
  by (simp add: sched_inv_def queues_ok_cpu) (simp add: is_thread_def t_status_def)

lemma sched_inv_intr_disable: "sched_inv (intr_disable s) = sched_inv s"
  by (simp add: intr_disable_def sched_inv_cpu)

lemma sched_inv_intr_enable: "sched_inv (intr_enable s) = sched_inv s"
  by (simp add: intr_enable_def sched_inv_cpu)

lemma sched_inv_intr_set_level: "sched_inv (intr_set_level l s) = sched_inv s"
  by (simp add: intr_set_level_def sched_inv_intr_disable sched_inv_intr_enable)

lemma queues_ok_intr_disable: "queues_ok (intr_disable s) = queues_ok s"
  by (simp add: intr_disable_def queues_ok_cpu)

text \<open>The running thread gives up its status: it is in no queue, so the queues stay
  well formed; emptying the destruction queue into the pool keeps them so as well.\<close>

lemma queues_ok_block:
  assumes "sched_inv s"
  shows "queues_ok (set_status (cur s) st s)"
proof -
  note n = sched_inv_cur_not_queued[OF assms]
  from assms have q: "queues_ok s" by (simp add: sched_inv_def)
  then show ?thesis
    by (simp add: queues_ok_def set_status_def valid_queue_upd_notin n deadline_le_upd)
qed

lemma queues_ok_drained:
  assumes "sched_inv s"
  shows "queues_ok (drained s)"
proof -
  note n = sched_inv_cur_not_queued[OF assms]
  from assms have q: "queues_ok s" by (simp add: sched_inv_def)
  then have d: "valid_queue (mem s) (destruction_req s) THREAD_DYING" by (simp add: queues_ok_def)
  from q have r: "valid_queue (mem s) (ready_list s) THREAD_READY"
    and b: "valid_queue (mem s) (sleep_list s) THREAD_BLOCKED" by (simp_all add: queues_ok_def)
  have "NULL \<notin> set (destruction_req s)"
    using valid_queue_member[OF d] by blast
  moreover have "set (destruction_req s) \<inter> set (ready_list s) = {}"
    by (rule valid_queue_disjoint[OF d r]) simp
  moreover have "set (destruction_req s) \<inter> set (sleep_list s) = {}"
    by (rule valid_queue_disjoint[OF d b]) simp
  ultimately show ?thesis
    using q n valid_queue_distinct[OF d]
    by (auto simp: queues_ok_def drained_def valid_queue_Nil)
qed

lemma sched_inv_drained:
  assumes "sched_inv s"
  shows "sched_inv (drained s)"
  using assms queues_ok_drained[OF assms]
  by (simp add: sched_inv_def) (simp add: drained_def is_thread_def t_status_def)

lemma set_status_drained: "set_status t st (drained s) = drained (set_status t st s)"
  by (simp add: set_status_def drained_def)

lemma queues_ok_leave_running:
  assumes "sched_inv s"
  shows "queues_ok (set_status (cur s) st (drained s))"
  using queues_ok_block[OF sched_inv_drained[OF assms], of st]
  by (simp add: drained_def)

lemma queues_ok_yield:
  assumes inv: "sched_inv s" and i: "cur s \<noteq> idle_thread s"
  shows "queues_ok (set_status (cur s) THREAD_READY
           (drained (s\<lparr>ready_list := ready_list s @ [cur s]\<rparr>)))"
proof -
  let ?d = "drained s"
  have di: "sched_inv ?d" by (rule sched_inv_drained[OF inv])
  note n = sched_inv_cur_not_queued[OF di]
  from di have q: "queues_ok ?d" and m: "magic (mem ?d (cur ?d)) = THREAD_MAGIC"
    by (simp_all add: sched_inv_def is_thread_def)
  have c: "cur ?d = cur s" "idle_thread ?d = idle_thread s" by (simp_all add: drained_def)
  have e: "set_status (cur s) THREAD_READY (drained (s\<lparr>ready_list := ready_list s @ [cur s]\<rparr>))
         = ?d\<lparr>ready_list := ready_list ?d @ [cur ?d],
               mem := (mem ?d)(cur ?d := (mem ?d (cur ?d))\<lparr>status := THREAD_READY\<rparr>)\<rparr>"
    by (simp add: set_status_def drained_def)
  show ?thesis
    unfolding e using q n m i c
    by (simp add: queues_ok_def valid_queue_upd_notin valid_queue_snoc deadline_le_upd)
qed

lemma do_schedule_inv:
  assumes d: "do_schedule st s = Inr s'"
    and q: "queues_ok (set_status (cur s) st (drained s))"
    and i: "st = THREAD_DYING \<longrightarrow> cur s \<noteq> idle_thread s"
  shows "sched_inv s'"
proof -
  let ?x = "set_status (cur s) st (drained s)"
  note a = do_schedule_Inr[OF d]
  show ?thesis
  proof (rule schedule_inv[OF q a(4)])
    show "cur ?x \<notin> set (destruction_req ?x)" by (simp add: set_status_def drained_def)
    show "is_thread ?x (cur ?x)" using a(2) by (simp add: set_status_def drained_def is_thread_def)
    show "t_status ?x (cur ?x) = THREAD_DYING \<longrightarrow> cur ?x \<noteq> idle_thread ?x"
      using i by (simp add: set_status_def drained_def t_status_def)
  qed
qed

lemma thread_block_Inr:
  assumes "thread_block s = Inr s'"
  shows "\<not> intr_context s" and "intr_get_level s = INTR_OFF"
    and "is_thread s (cur s)" and "t_status s (cur s) = THREAD_RUNNING"
    and "schedule (set_status (cur s) THREAD_BLOCKED s) = Inr s'"
  using assms
  by (auto simp: thread_block_def thread_current_Inr split: if_splits sum.splits)

lemma thread_block_inv:
  assumes b: "thread_block s = Inr s'" and inv: "sched_inv s"
  shows "sched_inv s'"
proof -
  let ?x = "set_status (cur s) THREAD_BLOCKED s"
  note a = thread_block_Inr[OF b]
  show ?thesis
  proof (rule schedule_inv[OF queues_ok_block[OF inv] a(5)])
    show "cur ?x \<notin> set (destruction_req ?x)"
      using sched_inv_cur_not_queued[OF inv] by (simp add: set_status_def)
    show "is_thread ?x (cur ?x)" using a(3) by (simp add: set_status_def is_thread_def)
    show "t_status ?x (cur ?x) = THREAD_DYING \<longrightarrow> cur ?x \<noteq> idle_thread ?x"
      by (simp add: set_status_def t_status_def)
  qed
qed

lemma thread_exit_Inr:
  assumes "thread_exit s = Inr s'"
  shows "\<not> intr_context s" and "do_schedule THREAD_DYING (intr_disable s) = Inr s'"
    and "cur s' \<noteq> cur s"
  using assms
  by (auto simp: thread_exit_def split: if_splits sum.splits)

lemma drained_intr_disable: "drained (intr_disable s) = intr_disable (drained s)"
  by (simp add: drained_def intr_disable_def)

lemma set_status_intr_disable:
  "set_status t st (intr_disable s) = intr_disable (set_status t st s)"
  by (simp add: set_status_def intr_disable_def)

lemma cur_intr_disable: "cur (intr_disable s) = cur s"
  and idle_intr_disable: "idle_thread (intr_disable s) = idle_thread s"
  and ready_intr_disable: "ready_list (intr_disable s) = ready_list s"
  by (simp_all add: intr_disable_def)

lemma thread_exit_inv:
  assumes e: "thread_exit s = Inr s'" and inv: "sched_inv s"
    and i: "cur s \<noteq> idle_thread s"
  shows "sched_inv s'"
proof (rule do_schedule_inv[OF thread_exit_Inr(2)[OF e]])
  show "queues_ok (set_status (cur (intr_disable s)) THREAD_DYING (drained (intr_disable s)))"
    using queues_ok_leave_running[OF inv, of THREAD_DYING]
    by (simp add: cur_intr_disable drained_intr_disable set_status_intr_disable
          queues_ok_intr_disable)
  show "THREAD_DYING = THREAD_DYING \<longrightarrow> cur (intr_disable s) \<noteq> idle_thread (intr_disable s)"
    using i by (simp add: cur_intr_disable idle_intr_disable)
qed

lemma thread_yield_eq:
  assumes c: "thread_current s = Inr c" and n: "\<not> intr_context s"
  shows "thread_yield s =
     (case do_schedule THREAD_READY
         ((intr_disable s)\<lparr>ready_list :=
            (if cur s \<noteq> idle_thread s then ready_list s @ [cur s] else ready_list s)\<rparr>) of
        Inl e \<Rightarrow> Inl e
      | Inr s3 \<Rightarrow> Inr (if cur s3 = cur s then intr_set_level (intr_get_level s) s3 else s3))"
proof -
  from c have cc: "c = cur s" by (simp add: thread_current_Inr)
  have r: "(intr_disable s)\<lparr>ready_list := ready_list s\<rparr> = intr_disable s"
    by (simp add: intr_disable_def)
  show ?thesis
  proof (cases "cur s = idle_thread s")
    case True
    with c n show ?thesis
      by (simp add: thread_yield_def Let_def cc idle_intr_disable r split: sum.splits)
  next
    case False
    with c n show ?thesis
      by (simp add: thread_yield_def Let_def cc idle_intr_disable ready_intr_disable
            split: sum.splits)
  qed
qed

lemma thread_yield_Inr:
  assumes "thread_yield s = Inr s'"
  shows "\<not> intr_context s" and "is_thread s (cur s)" and "t_status s (cur s) = THREAD_RUNNING"
    and "\<exists>s3. do_schedule THREAD_READY
            ((intr_disable s)\<lparr>ready_list :=
                (if cur s \<noteq> idle_thread s then ready_list s @ [cur s] else ready_list s)\<rparr>)
            = Inr s3
          \<and> s' = (if cur s3 = cur s then intr_set_level (intr_get_level s) s3 else s3)"
proof -
  from assms obtain c where c: "thread_current s = Inr c"
    by (auto simp: thread_yield_def split: sum.splits)
  then show "is_thread s (cur s)" "t_status s (cur s) = THREAD_RUNNING"
    by (simp_all add: thread_current_Inr)
  from assms c show n: "\<not> intr_context s"
    by (auto simp: thread_yield_def split: if_splits)
  from assms show "\<exists>s3. do_schedule THREAD_READY
            ((intr_disable s)\<lparr>ready_list :=
                (if cur s \<noteq> idle_thread s then ready_list s @ [cur s] else ready_list s)\<rparr>)
            = Inr s3
          \<and> s' = (if cur s3 = cur s then intr_set_level (intr_get_level s) s3 else s3)"
    unfolding thread_yield_eq[OF c n] by (auto split: sum.splits)
qed

lemma thread_yield_inv:
  assumes y: "thread_yield s = Inr s'" and inv: "sched_inv s"
  shows "sched_inv s'"
proof -
  let ?q = "if cur s \<noteq> idle_thread s then ready_list s @ [cur s] else ready_list s"
  let ?s2 = "(intr_disable s)\<lparr>ready_list := ?q\<rparr>"
  from thread_yield_Inr(4)[OF y] obtain s3 where
    d: "do_schedule THREAD_READY ?s2 = Inr s3"
    and s': "s' = (if cur s3 = cur s then intr_set_level (intr_get_level s) s3 else s3)"
    by blast
  have e: "set_status (cur ?s2) THREAD_READY (drained ?s2)
         = intr_disable (set_status (cur s) THREAD_READY (drained (s\<lparr>ready_list := ?q\<rparr>)))"
    by (simp add: drained_def set_status_def intr_disable_def)
  have "queues_ok (set_status (cur s) THREAD_READY (drained (s\<lparr>ready_list := ?q\<rparr>)))"
  proof (cases "cur s = idle_thread s")
    case True
    with queues_ok_leave_running[OF inv, of THREAD_READY] show ?thesis by simp
  next
    case False
    with queues_ok_yield[OF inv] show ?thesis by simp
  qed
  then have q: "queues_ok (set_status (cur ?s2) THREAD_READY (drained ?s2))"
    by (simp only: e queues_ok_intr_disable)
  have "sched_inv s3" by (rule do_schedule_inv[OF d q]) simp
  then show ?thesis by (simp add: s' sched_inv_intr_set_level)
qed

lemma thread_unblock_Inr:
  assumes "thread_unblock t s = Inr s'"
  shows "is_thread s t" and "t_status s t = THREAD_BLOCKED"
    and "s' = s\<lparr>ready_list := ready_list s @ [t],
           mem := (mem s)(t := (mem s t)\<lparr>status := THREAD_READY\<rparr>)\<rparr>"
proof -
  from assms show v: "is_thread s t" "t_status s t = THREAD_BLOCKED"
    by (auto simp: thread_unblock_def thread_unblock_trace_def Let_def t_status_def intr_disable_def
          split: if_splits)
  from assms thread_unblock_ok[OF v]
  show "s' = s\<lparr>ready_list := ready_list s @ [t],
           mem := (mem s)(t := (mem s t)\<lparr>status := THREAD_READY\<rparr>)\<rparr>" by simp
qed

text \<open>Appending a blocked thread that is in no queue to the ready queue.\<close>

lemma sched_inv_make_ready:
  assumes inv: "sched_inv s" and v: "is_thread s t" "t_status s t = THREAD_BLOCKED"
    and o1: "t \<noteq> idle_thread s" and o2: "t \<notin> set (sleep_list s)"
    and o3: "t \<notin> set (free_pages s)"
  shows "sched_inv (s\<lparr>ready_list := ready_list s @ [t],
           mem := (mem s)(t := (mem s t)\<lparr>status := THREAD_READY\<rparr>)\<rparr>)"
proof -
  from inv have q: "queues_ok s" and r: "is_thread s (cur s)" "t_status s (cur s) = THREAD_RUNNING"
    by (simp_all add: sched_inv_def)
  from q have vq: "valid_queue (mem s) (ready_list s) THREAD_READY"
    "valid_queue (mem s) (destruction_req s) THREAD_DYING" by (simp_all add: queues_ok_def)
  from v have b: "status (mem s t) = THREAD_BLOCKED" "t \<noteq> NULL" "magic (mem s t) = THREAD_MAGIC"
    by (simp_all add: t_status_def is_thread_def)
  have n1: "t \<notin> set (ready_list s)" by (rule valid_queue_other_status[OF vq(1)]) (simp add: b)
  have n2: "t \<notin> set (destruction_req s)"
    by (rule valid_queue_other_status[OF vq(2)]) (simp add: b)
  from r b have n3: "t \<noteq> cur s" by (auto simp: t_status_def)
  have "queues_ok (s\<lparr>ready_list := ready_list s @ [t],
           mem := (mem s)(t := (mem s t)\<lparr>status := THREAD_READY\<rparr>)\<rparr>)"
    using q n1 n2 o1 o2 o3 b
    by (simp add: queues_ok_def valid_queue_upd_notin valid_queue_snoc deadline_le_upd)
  with r n3 show ?thesis
    by (simp add: sched_inv_def is_thread_def t_status_def)
qed

lemma thread_unblock_inv:
  assumes u: "thread_unblock t s = Inr s'" and inv: "sched_inv s"
    and o1: "t \<noteq> idle_thread s" and o2: "t \<notin> set (sleep_list s)"
    and o3: "t \<notin> set (free_pages s)"
  shows "sched_inv s'"
  unfolding thread_unblock_Inr(3)[OF u]
  by (rule sched_inv_make_ready[OF inv thread_unblock_Inr(1,2)[OF u] o1 o2 o3])

lemma thread_create_Inr:
  assumes c: "thread_create nm prio f aux s = Inr (r, s')" and n: "NULL \<notin> set (free_pages s)"
  shows "(free_pages s = [] \<and> r = TID_ERROR \<and> s' = s)
     \<or> (\<exists>p ps. free_pages s = p # ps \<and> r = next_tid s \<and>
          s' = s\<lparr>free_pages := ps,
            mem := (mem s)(p := created_thread p nm prio f aux (next_tid s)),
            tid_lock := NULL, next_tid := next_tid s + 1,
            ready_list := ready_list s @ [p]\<rparr>)"
proof (cases "free_pages s")
  case Nil
  with c show ?thesis
    by (auto simp: thread_create_def palloc_get_page_def split: if_splits)
next
  case (Cons p ps)
  with n have p: "p \<noteq> NULL" by auto
  show ?thesis
  proof (cases "f = 0 \<or> \<not> (PRI_MIN \<le> prio \<and> prio \<le> PRI_MAX)")
    case True
    with c Cons p show ?thesis
      by (auto simp: thread_create_def palloc_get_page_def init_thread_def split: if_splits)
  next
    case False
    with c Cons p thread_create_ok[of s p ps f prio nm aux] show ?thesis
      by auto
  qed
qed

lemma thread_create_inv:
  assumes c: "thread_create nm prio f aux s = Inr (r, s')" and inv: "sched_inv s"
  shows "sched_inv s'"
proof -
  from inv have q: "queues_ok s" and rn: "is_thread s (cur s)" "t_status s (cur s) = THREAD_RUNNING"
    by (simp_all add: sched_inv_def)
  from q have n: "NULL \<notin> set (free_pages s)" by (simp add: queues_ok_def)
  from thread_create_Inr[OF c n] show ?thesis
  proof
    assume "free_pages s = [] \<and> r = TID_ERROR \<and> s' = s"
    with inv show ?thesis by simp
  next
    assume "\<exists>p ps. free_pages s = p # ps \<and> r = next_tid s \<and>
          s' = s\<lparr>free_pages := ps,
            mem := (mem s)(p := created_thread p nm prio f aux (next_tid s)),
            tid_lock := NULL, next_tid := next_tid s + 1,
            ready_list := ready_list s @ [p]\<rparr>"
    then obtain p ps where f: "free_pages s = p # ps"
      and s': "s' = s\<lparr>free_pages := ps,
            mem := (mem s)(p := created_thread p nm prio f aux (next_tid s)),
            tid_lock := NULL, next_tid := next_tid s + 1,
            ready_list := ready_list s @ [p]\<rparr>" by blast
    from q f have p: "p \<noteq> NULL" "p \<notin> set ps" "distinct ps" "NULL \<notin> set ps"
      "p \<noteq> cur s" "cur s \<notin> set ps" "p \<noteq> idle_thread s" "idle_thread s \<notin> set ps"
      "p \<notin> set (ready_list s)" "set ps \<inter> set (ready_list s) = {}"
      "p \<notin> set (sleep_list s)" "set ps \<inter> set (sleep_list s) = {}"
      "p \<notin> set (destruction_req s)" "set ps \<inter> set (destruction_req s) = {}"
      by (auto simp: queues_ok_def)
    have ct: "magic (created_thread p nm prio f aux (next_tid s)) = THREAD_MAGIC"
      "status (created_thread p nm prio f aux (next_tid s)) = THREAD_READY"
      by (simp_all add: created_thread_def)
    have "queues_ok s'"
      unfolding s' using q p ct
      by (simp add: queues_ok_def valid_queue_upd_notin valid_queue_snoc sorted_deadline_upd)
    with rn p show ?thesis
      by (simp add: sched_inv_def is_thread_def t_status_def s')
  qed
qed

lemma thread_tick_inv:
  assumes t: "thread_tick s = Inr s'" and inv: "sched_inv s"
  shows "sched_inv s'"
proof -
  from t obtain c where c: "thread_current s = Inr c"
    by (auto simp: thread_tick_def split: sum.splits)
  from t thread_tick_Inr[OF c] have
    "s' = (if c = idle_thread s then s\<lparr>idle_ticks := idle_ticks s + 1\<rparr>
           else s\<lparr>kernel_ticks := kernel_ticks s + 1\<rparr>)
          \<lparr>thread_ticks := thread_ticks s + 1,
            yield_on_return := (yield_on_return s \<or> TIME_SLICE \<le> thread_ticks s + 1)\<rparr>"
    by simp
  with inv show ?thesis
    by (simp add: sched_inv_def queues_ok_def is_thread_def t_status_def)
qed

lemma idle_register_inv:
  assumes t: "idle_register s = Inr s'" and inv: "sched_inv s"
  shows "sched_inv s'"
proof -
  from t have s': "s' = s\<lparr>idle_thread := cur s\<rparr>"
    by (auto simp: idle_register_def thread_current_Inr split: sum.splits)
  note n = sched_inv_cur_not_queued[OF inv]
  from inv n show ?thesis
    by (simp add: sched_inv_def queues_ok_def is_thread_def t_status_def s')
qed

subsection \<open>Ordered insertion\<close>

lemma list_insert_ordered_split:
  "list_insert_ordered lt e xs =
     takeWhile (\<lambda>x. \<not> lt e x) xs @ e # dropWhile (\<lambda>x. \<not> lt e x) xs"
  by (induction xs) simp_all

lemma set_list_insert_ordered: "set (list_insert_ordered lt e xs) = insert e (set xs)"
  by (induction xs) auto

lemma distinct_list_insert_ordered:
  "distinct (list_insert_ordered lt e xs) \<longleftrightarrow> e \<notin> set xs \<and> distinct xs"
  by (induction xs) (auto simp: set_list_insert_ordered)

lemma sorted_list_insert_ordered:
  fixes d :: "'a \<Rightarrow> int"
  assumes "sorted_wrt (\<lambda>a b. d a \<le> d b) xs"
  shows "sorted_wrt (\<lambda>a b. d a \<le> d b) (list_insert_ordered (\<lambda>a b. d a < d b) e xs)"
  using assms
  by (induction xs) (auto simp: set_list_insert_ordered)

lemma valid_queue_insert_ordered:
  "valid_queue m (list_insert_ordered lt e xs) st \<longleftrightarrow>
     valid_queue m xs st \<and> e \<notin> set xs \<and> e \<noteq> NULL \<and> magic (m e) = THREAD_MAGIC
     \<and> status (m e) = st"
  by (auto simp: valid_queue_def list_all_iff set_list_insert_ordered
        distinct_list_insert_ordered)

lemma valid_queue_Cons:
  "valid_queue m (t # q) st \<longleftrightarrow>
     valid_queue m q st \<and> t \<notin> set q \<and> t \<noteq> NULL \<and> magic (m t) = THREAD_MAGIC
     \<and> status (m t) = st"
  by (auto simp: valid_queue_def)

subsection \<open>Sleeping\<close>

lemma cmp_thread_ticks_cpu:
  "cmp_thread_ticks (s\<lparr>cpu := c, mem := m\<rparr>) = cmp_thread_ticks (s\<lparr>mem := m\<rparr>)"
  by (simp add: cmp_thread_ticks_def fun_eq_iff)

lemma thread_sleep_Inr:
  assumes "thread_sleep deadline s = Inr s'"
  shows "is_thread s (cur s)" and "t_status s (cur s) = THREAD_RUNNING"
    and "\<not> intr_context s"
    and "\<exists>s4. schedule (intr_disable (sleep_pre deadline s)) = Inr s4
          \<and> s' = (if cur s4 = cur s then intr_set_level (intr_get_level s) s4 else s4)"
proof -
  from assms obtain c where c: "thread_current s = Inr c"
    by (auto simp: thread_sleep_def split: sum.splits)
  then have cc: "c = cur s" and v: "is_thread s (cur s)" "t_status s (cur s) = THREAD_RUNNING"
    by (simp_all add: thread_current_Inr)
  from v show "is_thread s (cur s)" "t_status s (cur s) = THREAD_RUNNING" .
  let ?s2 = "(intr_disable s)\<lparr>mem := (mem (intr_disable s))
                  (c := (mem (intr_disable s) c)\<lparr>wakeup_ticks := deadline\<rparr>)\<rparr>"
  let ?s3 = "?s2\<lparr>sleep_list := list_insert_ordered (cmp_thread_ticks ?s2) c (sleep_list ?s2)\<rparr>"
  from assms c obtain s4 where b: "thread_block ?s3 = Inr s4"
    and s': "s' = (if cur s4 = cur s then intr_set_level (intr_get_level s) s4 else s4)"
    by (auto simp: thread_sleep_def Let_def cc split: sum.splits if_splits)
  note tb = thread_block_Inr[OF b]
  from tb(1) show "\<not> intr_context s" by (simp add: intr_context_def intr_disable_def)
  have "set_status (cur ?s3) THREAD_BLOCKED ?s3 = intr_disable (sleep_pre deadline s)"
    by (simp add: set_status_def sleep_pre_def intr_disable_def Let_def cc cmp_thread_ticks_cpu)
  with tb(5) s' show "\<exists>s4. schedule (intr_disable (sleep_pre deadline s)) = Inr s4
          \<and> s' = (if cur s4 = cur s then intr_set_level (intr_get_level s) s4 else s4)"
    by auto
qed

lemma sleep_pre_fields:
  "sleep_list (sleep_pre deadline s) =
     list_insert_ordered
       (\<lambda>a b. sint (wakeup_ticks (((mem s)(cur s := (mem s (cur s))\<lparr>wakeup_ticks := deadline\<rparr>)) a))
            < sint (wakeup_ticks (((mem s)(cur s := (mem s (cur s))\<lparr>wakeup_ticks := deadline\<rparr>)) b)))
       (cur s) (sleep_list s)"
  "mem (sleep_pre deadline s) =
     (mem s)(cur s := (mem s (cur s))\<lparr>wakeup_ticks := deadline, status := THREAD_BLOCKED\<rparr>)"
  "ready_list (sleep_pre deadline s) = ready_list s"
  "destruction_req (sleep_pre deadline s) = destruction_req s"
  "free_pages (sleep_pre deadline s) = free_pages s"
  "freed (sleep_pre deadline s) = freed s"
  "cur (sleep_pre deadline s) = cur s"
  "idle_thread (sleep_pre deadline s) = idle_thread s"
  "initial_thread (sleep_pre deadline s) = initial_thread s"
  "tid_lock (sleep_pre deadline s) = tid_lock s"
  "next_tid (sleep_pre deadline s) = next_tid s"
proof -
  have "cmp_thread_ticks (s\<lparr>mem := (mem s)(cur s := (mem s (cur s))\<lparr>wakeup_ticks := deadline\<rparr>)\<rparr>)
     = (\<lambda>a b. sint (wakeup_ticks (((mem s)(cur s := (mem s (cur s))\<lparr>wakeup_ticks := deadline\<rparr>)) a))
               < sint (wakeup_ticks (((mem s)(cur s := (mem s (cur s))\<lparr>wakeup_ticks := deadline\<rparr>)) b)))"
    by (simp add: cmp_thread_ticks_def fun_eq_iff)
  then show "sleep_list (sleep_pre deadline s) =
     list_insert_ordered
       (\<lambda>a b. sint (wakeup_ticks (((mem s)(cur s := (mem s (cur s))\<lparr>wakeup_ticks := deadline\<rparr>)) a))
            < sint (wakeup_ticks (((mem s)(cur s := (mem s (cur s))\<lparr>wakeup_ticks := deadline\<rparr>)) b)))
       (cur s) (sleep_list s)"
    by (simp add: sleep_pre_def Let_def set_status_def)
qed (simp_all add: sleep_pre_def Let_def set_status_def)

lemma queues_ok_sleep_pre:
  assumes inv: "sched_inv s" and i: "cur s \<noteq> idle_thread s"
  shows "queues_ok (sleep_pre deadline s)"
proof -
  note n = sched_inv_cur_not_queued[OF inv]
  from inv have q: "queues_ok s" and m: "magic (mem s (cur s)) = THREAD_MAGIC"
    by (simp_all add: sched_inv_def is_thread_def)
  let ?m2 = "(mem s)(cur s := (mem s (cur s))\<lparr>wakeup_ticks := deadline\<rparr>)"
  let ?m3 = "(mem s)(cur s := (mem s (cur s))\<lparr>wakeup_ticks := deadline, status := THREAD_BLOCKED\<rparr>)"
  from q have so: "sorted_wrt (deadline_le (mem s)) (sleep_list s)" by (simp add: queues_ok_def)
  then have "sorted_wrt (deadline_le ?m2) (sleep_list s)"
    by (simp add: sorted_deadline_upd n)
  then have "sorted_wrt (\<lambda>a b. sint (wakeup_ticks (?m2 a)) \<le> sint (wakeup_ticks (?m2 b)))
        (list_insert_ordered (\<lambda>a b. sint (wakeup_ticks (?m2 a)) < sint (wakeup_ticks (?m2 b)))
           (cur s) (sleep_list s))"
    unfolding deadline_le_def by (rule sorted_list_insert_ordered)
  moreover have "deadline_le ?m3 = (\<lambda>a b. sint (wakeup_ticks (?m2 a)) \<le> sint (wakeup_ticks (?m2 b)))"
    by (auto simp: deadline_le_def fun_eq_iff)
  ultimately have so': "sorted_wrt (deadline_le ?m3)
        (list_insert_ordered (\<lambda>a b. sint (wakeup_ticks (?m2 a)) < sint (wakeup_ticks (?m2 b)))
           (cur s) (sleep_list s))" by simp
  show ?thesis
    using q n m i so'
    by (simp add: queues_ok_def sleep_pre_fields valid_queue_upd_notin valid_queue_insert_ordered
          set_list_insert_ordered)
qed

lemma thread_sleep_inv:
  assumes sl: "thread_sleep deadline s = Inr s'" and inv: "sched_inv s"
    and i: "cur s \<noteq> idle_thread s"
  shows "sched_inv s'"
proof -
  from thread_sleep_Inr(4)[OF sl] obtain s4 where
    sch: "schedule (intr_disable (sleep_pre deadline s)) = Inr s4"
    and s': "s' = (if cur s4 = cur s then intr_set_level (intr_get_level s) s4 else s4)"
    by blast
  let ?x = "intr_disable (sleep_pre deadline s)"
  have q: "queues_ok ?x"
    by (simp add: queues_ok_intr_disable queues_ok_sleep_pre[OF inv i])
  note n = sched_inv_cur_not_queued[OF inv]
  have "sched_inv s4"
  proof (rule schedule_inv[OF q sch])
    show "cur ?x \<notin> set (destruction_req ?x)"
      using n by (simp add: intr_disable_def sleep_pre_fields)
    show "is_thread ?x (cur ?x)"
      using thread_sleep_Inr(1)[OF sl] by (simp add: intr_disable_def sleep_pre_fields is_thread_def)
    show "t_status ?x (cur ?x) = THREAD_DYING \<longrightarrow> cur ?x \<noteq> idle_thread ?x"
      by (simp add: intr_disable_def sleep_pre_fields t_status_def)
  qed
  then show ?thesis by (simp add: s' sched_inv_intr_set_level)
qed

subsection \<open>Waking\<close>

lemma due_upd_status: "due now (m(t := (m t)\<lparr>status := st\<rparr>)) = due now m"
  by (auto simp: due_def fun_eq_iff)

lemma wakeup_loop_result:
  assumes "valid_queue (mem s) l THREAD_BLOCKED" and "sleep_list s = l"
  shows "wakeup_loop now l s =
     Inr (s\<lparr>sleep_list := dropWhile (due now (mem s)) l,
            ready_list := ready_list s @ takeWhile (due now (mem s)) l,
            mem := (\<lambda>t. if t \<in> set (takeWhile (due now (mem s)) l)
                        then (mem s t)\<lparr>status := THREAD_READY\<rparr> else mem s t)\<rparr>)"
  using assms
proof (induction l arbitrary: s)
  case Nil
  then show ?case by simp
next
  case (Cons t rest)
  show ?case
  proof (cases "due now (mem s) t")
    case False
    then show ?thesis using Cons.prems(2) by (simp add: due_def)
  next
    case True
    from Cons.prems(1) have v: "valid_queue (mem s) rest THREAD_BLOCKED" "t \<notin> set rest"
      "t \<noteq> NULL" "magic (mem s t) = THREAD_MAGIC" "status (mem s t) = THREAD_BLOCKED"
      by (simp_all add: valid_queue_Cons)
    let ?s0 = "s\<lparr>sleep_list := rest\<rparr>"
    let ?s1 = "?s0\<lparr>ready_list := ready_list ?s0 @ [t],
           mem := (mem ?s0)(t := (mem ?s0 t)\<lparr>status := THREAD_READY\<rparr>)\<rparr>"
    have u: "thread_unblock t ?s0 = Inr ?s1"
      using v by (intro thread_unblock_ok) (simp_all add: is_thread_def t_status_def)
    have v1: "valid_queue (mem ?s1) rest THREAD_BLOCKED"
      using v by (simp add: valid_queue_upd_notin)
    have d1: "due now (mem ?s1) = due now (mem s)"
      by (simp add: due_upd_status)
    have "wakeup_loop now (t # rest) s = wakeup_loop now rest ?s1"
      using True u by (simp add: due_def)
    also have "\<dots> = Inr (?s1\<lparr>sleep_list := dropWhile (due now (mem ?s1)) rest,
            ready_list := ready_list ?s1 @ takeWhile (due now (mem ?s1)) rest,
            mem := (\<lambda>u. if u \<in> set (takeWhile (due now (mem ?s1)) rest)
                        then (mem ?s1 u)\<lparr>status := THREAD_READY\<rparr> else mem ?s1 u)\<rparr>)"
      by (rule Cons.IH[OF v1]) simp
    also have "\<dots> = Inr (s\<lparr>sleep_list := dropWhile (due now (mem s)) (t # rest),
            ready_list := ready_list s @ takeWhile (due now (mem s)) (t # rest),
            mem := (\<lambda>u. if u \<in> set (takeWhile (due now (mem s)) (t # rest))
                        then (mem s u)\<lparr>status := THREAD_READY\<rparr> else mem s u)\<rparr>)"
      unfolding d1 using True by (auto simp: fun_eq_iff)
    finally show ?thesis .
  qed
qed

lemma thread_wakeup_result:
  assumes "valid_queue (mem s) (sleep_list s) THREAD_BLOCKED"
  shows "thread_wakeup now s = Inr (after_wakeup now s)"
  unfolding thread_wakeup_def after_wakeup_def woken_def
  by (rule wakeup_loop_result[OF assms]) simp

lemma sorted_takeWhile_due:
  assumes "sorted_wrt (deadline_le m) xs"
  shows "takeWhile (due now m) xs = filter (due now m) xs"
    and "dropWhile (due now m) xs = filter (\<lambda>t. \<not> due now m t) xs"
  using assms
proof (induction xs)
  case Nil
  { case 1 show ?case by simp }
  { case 2 show ?case by simp }
next
  case (Cons x xs)
  { case 1
    show ?case
    proof (cases "due now m x")
      case True
      with Cons 1 show ?thesis by simp
    next
      case False
      with 1 have "\<forall>y\<in>set xs. \<not> due now m y"
        by (auto simp: due_def deadline_le_def)
      with False show ?thesis by simp
    qed }
  { case 2
    show ?case
    proof (cases "due now m x")
      case True
      with Cons 2 show ?thesis by simp
    next
      case False
      with 2 have "\<forall>y\<in>set xs. \<not> due now m y"
        by (auto simp: due_def deadline_le_def)
      with False show ?thesis by simp
    qed }
qed

lemma sched_inv_pop_sleep:
  assumes inv: "sched_inv s" and l: "sleep_list s = t # rest"
  shows "sched_inv (s\<lparr>sleep_list := rest\<rparr>)"
    and "t \<noteq> idle_thread s" and "t \<notin> set rest" and "t \<notin> set (free_pages s)"
proof -
  from inv have q: "queues_ok s" by (simp add: sched_inv_def)
  from q l show "t \<noteq> idle_thread s" "t \<notin> set rest" "t \<notin> set (free_pages s)"
    by (auto simp: queues_ok_def valid_queue_Cons)
  from q l have "queues_ok (s\<lparr>sleep_list := rest\<rparr>)"
    by (auto simp: queues_ok_def valid_queue_Cons)
  with inv show "sched_inv (s\<lparr>sleep_list := rest\<rparr>)"
    by (simp add: sched_inv_def is_thread_def t_status_def)
qed

lemma wakeup_loop_inv:
  assumes "sched_inv s" and "sleep_list s = l" and "wakeup_loop now l s = Inr s'"
  shows "sched_inv s'"
  using assms
proof (induction l arbitrary: s)
  case Nil
  then show ?case by simp
next
  case (Cons t rest)
  show ?case
  proof (cases "sint (wakeup_ticks (mem s t)) \<le> sint now")
    case False
    with Cons.prems show ?thesis by simp
  next
    case True
    with Cons.prems(3) obtain s1 where u: "thread_unblock t (s\<lparr>sleep_list := rest\<rparr>) = Inr s1"
      and w: "wakeup_loop now rest s1 = Inr s'"
      by (auto split: sum.splits)
    note p = sched_inv_pop_sleep[OF Cons.prems(1,2)]
    have i1: "sched_inv s1"
      by (rule thread_unblock_inv[OF u p(1)]) (simp_all add: p)
    have "sleep_list s1 = rest"
      unfolding thread_unblock_Inr(3)[OF u] by simp
    from Cons.IH[OF i1 this w] show ?thesis .
  qed
qed

lemma thread_wakeup_inv:
  assumes "thread_wakeup now s = Inr s'" and "sched_inv s"
  shows "sched_inv s'"
  using wakeup_loop_inv[OF assms(2) refl] assms(1) by (simp add: thread_wakeup_def)

lemma timer_interrupt_Inr:
  assumes "timer_interrupt s = Inr s'"
  shows "\<exists>s2. thread_tick (s\<lparr>ticks := ticks s + 1\<rparr>) = Inr s2
          \<and> thread_wakeup (ticks s + 1) s2 = Inr s'"
proof -
  from assms obtain s2 where t: "thread_tick (s\<lparr>ticks := ticks s + 1\<rparr>) = Inr s2"
    and w: "thread_wakeup (ticks s2) s2 = Inr s'"
    by (auto simp: timer_interrupt_def Let_def split: sum.splits)
  from t obtain c where c: "thread_current (s\<lparr>ticks := ticks s + 1\<rparr>) = Inr c"
    by (auto simp: thread_tick_def split: sum.splits)
  from t thread_tick_Inr[OF c] have "ticks s2 = ticks s + 1" by auto
  with t w show ?thesis by simp
qed

lemma timer_interrupt_inv:
  assumes t: "timer_interrupt s = Inr s'" and inv: "sched_inv s"
  shows "sched_inv s'"
proof -
  from timer_interrupt_Inr[OF t] obtain s2 where
    a: "thread_tick (s\<lparr>ticks := ticks s + 1\<rparr>) = Inr s2"
    and b: "thread_wakeup (ticks s + 1) s2 = Inr s'" by blast
  from inv have "sched_inv (s\<lparr>ticks := ticks s + 1\<rparr>)"
    by (simp add: sched_inv_def queues_ok_def is_thread_def t_status_def)
  from thread_wakeup_inv[OF b thread_tick_inv[OF a this]] show ?thesis .
qed

lemma timer_sleep_eq:
  "timer_sleep tk s =
     (if intr_get_level s \<noteq> INTR_ON then Inl (ASSERT_failed ''intr_get_level () == INTR_ON'')
      else thread_sleep (ticks s + tk) s)"
proof -
  have "timer_ticks s = (ticks s, s)"
    by (simp add: timer_ticks_def Let_def intr_restore) (simp add: intr_disable_def)
  then show ?thesis by (simp add: timer_sleep_def)
qed

lemma timer_sleep_inv:
  assumes t: "timer_sleep tk s = Inr s'" and inv: "sched_inv s"
    and i: "cur s \<noteq> idle_thread s"
  shows "sched_inv s'"
proof -
  from t have "thread_sleep (ticks s + tk) s = Inr s'"
    by (simp add: timer_sleep_eq split: if_splits)
  from thread_sleep_inv[OF this inv i] show ?thesis .
qed

lemma exec_inv:
  assumes "exec c s = Inr s'" and "allowed c s" and "sched_inv s"
  shows "sched_inv s'"
proof (cases c)
  case (Create nm prio f aux)
  with assms(1) obtain r where "thread_create nm prio f aux s = Inr (r, s')"
    by (auto split: sum.splits)
  from thread_create_inv[OF this assms(3)] show ?thesis .
next
  case Block
  with assms thread_block_inv show ?thesis by simp
next
  case (Unblock t)
  with assms thread_unblock_inv[of t s s'] show ?thesis by simp
next
  case Yield
  with assms thread_yield_inv show ?thesis by simp
next
  case Exit
  with assms thread_exit_inv show ?thesis by simp
next
  case (Sleep d)
  with assms thread_sleep_inv show ?thesis by simp
next
  case (Timer_sleep tk)
  with assms timer_sleep_inv show ?thesis by simp
next
  case Tick
  with assms thread_tick_inv show ?thesis by simp
next
  case (Wakeup now)
  with assms thread_wakeup_inv show ?thesis by simp
next
  case Timer_interrupt
  with assms timer_interrupt_inv show ?thesis by simp
next
  case Idle_register
  with assms idle_register_inv show ?thesis by simp
next
  case (Set_level l)
  with assms show ?thesis by (auto simp: sched_inv_intr_set_level)
next
  case (Set_context b)
  with assms show ?thesis
    by (auto simp: sched_inv_def queues_ok_def is_thread_def t_status_def)
qed

lemma run_inv:
  assumes "run calls s = Inr s'" and "sched_inv s"
  shows "sched_inv s'"
  using assms
proof (induction calls arbitrary: s)
  case Nil
  then show ?case by simp
next
  case (Cons c calls)
  from Cons.prems(1) obtain s1 where a: "allowed c s" and e: "exec c s = Inr s1"
    and r: "run calls s1 = Inr s'"
    by (auto split: if_splits sum.splits)
  from Cons.IH[OF r exec_inv[OF e a Cons.prems(2)]] show ?case .
qed

lemma thread_init_result:
  assumes "intr_get_level (boot m regs sp pool) = INTR_OFF" and "sp \<noteq> NULL"
  shows "thread_init (boot m regs sp pool) =
     Inr ((boot m regs sp pool)
            \<lparr>initial_thread := sp, next_tid := 2,
              mem := m(sp := \<lparr>tid = 1, status = THREAD_RUNNING, name = ''main'',
                 priority = PRI_DEFAULT, wakeup_ticks = 0,
                 tf = zero_frame\<lparr>rsp := sp + PGSIZE - 8\<rparr>, magic = THREAD_MAGIC\<rparr>)\<rparr>)"
  using assms
  by (simp add: thread_init_def Let_def init_thread_def allocate_tid_def lock_acquire_def
        lock_release_def set_status_def running_thread_def boot_def zero_thread_def
        PRI_DEFAULT_def PRI_MIN_def PRI_MAX_def intr_get_level_def)

lemma thread_init_inv:
  assumes t: "thread_init (boot m regs sp pool) = Inr s"
    and p: "distinct pool" "NULL \<notin> set pool" "sp \<notin> set pool"
  shows "sched_inv s"
proof -
  from t have l: "intr_get_level (boot m regs sp pool) = INTR_OFF"
    by (auto simp: thread_init_def split: if_splits)
  have n: "sp \<noteq> NULL"
  proof
    assume "sp = NULL"
    with t l show False
      by (simp add: thread_init_def Let_def init_thread_def boot_def running_thread_def)
  qed
  from t thread_init_result[OF l n] p n show ?thesis
    by (auto simp: sched_inv_def queues_ok_def valid_queue_Nil boot_def is_thread_def
          t_status_def)
qed

subsection \<open>What each call frees\<close>

lemma do_schedule_frees:
  assumes d: "do_schedule st s = Inr s'"
  shows "freed s' = freed s @ destruction_req s"
    and "destruction_req s' =
           (if cur s' \<noteq> cur s \<and> st = THREAD_DYING \<and> cur s \<noteq> initial_thread s
            then [cur s] else [])"
    and "cur s' = sched_next s"
    and "ready_list s' = tl (ready_list s)"
    and "idle_thread s' = idle_thread s"
    and "t_status s' t = (if t = sched_next s then THREAD_RUNNING
                          else if t = cur s then st else t_status s t)"
proof -
  let ?x = "set_status (cur s) st (drained s)"
  note a = do_schedule_Inr[OF d]
  note f = schedule_fields[OF a(4)]
  have n: "sched_next ?x = sched_next s"
    by (simp add: sched_next_def set_status_def drained_def split: list.split)
  from a(2) have nn: "cur s \<noteq> NULL" by (simp add: is_thread_def)
  show "freed s' = freed s @ destruction_req s"
    by (simp add: f set_status_def drained_def)
  show c: "cur s' = sched_next s" by (simp add: f n)
  show "destruction_req s' =
           (if cur s' \<noteq> cur s \<and> st = THREAD_DYING \<and> cur s \<noteq> initial_thread s
            then [cur s] else [])"
    using nn by (auto simp: f c n dying_cond_def set_status_def drained_def t_status_def)
  show "ready_list s' = tl (ready_list s)" by (simp add: f set_status_def drained_def)
  show "idle_thread s' = idle_thread s" by (simp add: f set_status_def drained_def)
  show "t_status s' t = (if t = sched_next s then THREAD_RUNNING
                          else if t = cur s then st else t_status s t)"
    by (simp add: f n) (simp add: set_status_def drained_def t_status_def)
qed

lemma thread_exit_frees:
  assumes e: "thread_exit s = Inr s'"
  shows "freed s' = freed s @ destruction_req s"
    and "destruction_req s' = (if cur s = initial_thread s then [] else [cur s])"
    and "cur s' \<noteq> cur s"
    and "t_status s' (cur s) = THREAD_DYING"
proof -
  note x = thread_exit_Inr[OF e]
  note f = do_schedule_frees[OF x(2)]
  show "cur s' \<noteq> cur s" by (rule x(3))
  show "freed s' = freed s @ destruction_req s" by (simp add: f(1) intr_disable_def)
  show "destruction_req s' = (if cur s = initial_thread s then [] else [cur s])"
    using x(3) by (simp add: f(2) intr_disable_def)
  from x(3) f(3) have "cur s \<noteq> sched_next (intr_disable s)" by (simp add: intr_disable_def)
  then show "t_status s' (cur s) = THREAD_DYING"
    by (simp add: f(6)) (simp add: intr_disable_def)
qed

lemma thread_yield_frees:
  assumes y: "thread_yield s = Inr s'"
  shows "freed s' = freed s @ destruction_req s"
    and "destruction_req s' = []"
    and "idle_thread s' = idle_thread s"
    and "cur s' # ready_list s' =
           (if cur s \<noteq> idle_thread s then ready_list s @ [cur s]
            else if ready_list s = [] then [idle_thread s] else ready_list s)"
    and "cur s' \<noteq> cur s \<longrightarrow> t_status s' (cur s) = THREAD_READY"
proof -
  let ?q = "if cur s \<noteq> idle_thread s then ready_list s @ [cur s] else ready_list s"
  let ?s2 = "(intr_disable s)\<lparr>ready_list := ?q\<rparr>"
  from thread_yield_Inr(4)[OF y] obtain s3 where
    d: "do_schedule THREAD_READY ?s2 = Inr s3"
    and s': "s' = (if cur s3 = cur s then intr_set_level (intr_get_level s) s3 else s3)"
    by blast
  note f = do_schedule_frees[OF d]
  have k: "freed s' = freed s3" "destruction_req s' = destruction_req s3"
    "idle_thread s' = idle_thread s3" "cur s' = cur s3" "ready_list s' = ready_list s3"
    "t_status s' = t_status s3"
    by (simp_all add: s' intr_set_level_def intr_enable_def intr_disable_def t_status_def
          fun_eq_iff)
  show "freed s' = freed s @ destruction_req s" by (simp add: k f(1) intr_disable_def)
  show "destruction_req s' = []" by (simp add: k f(2))
  show "idle_thread s' = idle_thread s" by (simp add: k f(5) intr_disable_def)
  show "cur s' # ready_list s' =
           (if cur s \<noteq> idle_thread s then ready_list s @ [cur s]
            else if ready_list s = [] then [idle_thread s] else ready_list s)"
    by (cases "ready_list s")
       (simp_all add: k f(3,4) sched_next_def intr_disable_def)
  show "cur s' \<noteq> cur s \<longrightarrow> t_status s' (cur s) = THREAD_READY"
    by (simp add: k f(3,6)) (simp add: intr_disable_def)
qed

lemma schedule_keeps_queue:
  assumes sch: "schedule s = Inr s'" and n: "t_status s (cur s) \<noteq> THREAD_DYING"
  shows "freed s' = freed s" and "destruction_req s' = destruction_req s"
  using schedule_fields[OF sch] n by (simp_all add: dying_cond_def)

lemma exec_keeps_queue:
  assumes e: "exec c s = Inr s'" and inv: "sched_inv s" and c: "c \<noteq> Yield" "c \<noteq> Exit"
  shows "freed s' = freed s \<and> destruction_req s' = destruction_req s"
proof (cases c)
  case (Create nm prio f aux)
  with e obtain r where t: "thread_create nm prio f aux s = Inr (r, s')"
    by (auto split: sum.splits)
  from inv have "NULL \<notin> set (free_pages s)" by (simp add: sched_inv_def queues_ok_def)
  from thread_create_Inr[OF t this] show ?thesis by auto
next
  case Block
  with e have b: "thread_block s = Inr s'" by simp
  show ?thesis
    using schedule_keeps_queue[OF thread_block_Inr(5)[OF b]]
    by (simp add: set_status_def t_status_def)
next
  case (Unblock t)
  with e thread_unblock_Inr(3)[of t s s'] show ?thesis by simp
next
  case Yield
  with c show ?thesis by simp
next
  case Exit
  with c show ?thesis by simp
next
  case (Sleep d)
  with e have "thread_sleep d s = Inr s'" by simp
  from thread_sleep_Inr(4)[OF this] obtain s4 where
    sch: "schedule (intr_disable (sleep_pre d s)) = Inr s4"
    and s': "s' = (if cur s4 = cur s then intr_set_level (intr_get_level s) s4 else s4)"
    by blast
  have "freed s4 = freed s \<and> destruction_req s4 = destruction_req s"
    using schedule_keeps_queue[OF sch]
    by (simp add: intr_disable_def sleep_pre_fields t_status_def)
  then show ?thesis
    by (simp add: s' intr_set_level_def intr_enable_def intr_disable_def)
next
  case (Timer_sleep tk)
  with e have "thread_sleep (ticks s + tk) s = Inr s'"
    by (simp add: timer_sleep_eq split: if_splits)
  from thread_sleep_Inr(4)[OF this] obtain s4 where
    sch: "schedule (intr_disable (sleep_pre (ticks s + tk) s)) = Inr s4"
    and s': "s' = (if cur s4 = cur s then intr_set_level (intr_get_level s) s4 else s4)"
    by blast
  have "freed s4 = freed s \<and> destruction_req s4 = destruction_req s"
    using schedule_keeps_queue[OF sch]
    by (simp add: intr_disable_def sleep_pre_fields t_status_def)
  then show ?thesis
    by (simp add: s' intr_set_level_def intr_enable_def intr_disable_def)
next
  case Tick
  with e obtain t where t: "thread_current s = Inr t"
    by (auto simp: thread_tick_def split: sum.splits)
  from e Tick thread_tick_Inr[OF t] show ?thesis by auto
next
  case (Wakeup now)
  from inv have "valid_queue (mem s) (sleep_list s) THREAD_BLOCKED"
    by (simp add: sched_inv_def queues_ok_def)
  from thread_wakeup_result[OF this, of now] e Wakeup show ?thesis
    by (auto simp: after_wakeup_def)
next
  case Timer_interrupt
  with e have "timer_interrupt s = Inr s'" by simp
  from timer_interrupt_Inr[OF this] obtain s2 where
    a: "thread_tick (s\<lparr>ticks := ticks s + 1\<rparr>) = Inr s2"
    and b: "thread_wakeup (ticks s + 1) s2 = Inr s'" by blast
  from inv have i1: "sched_inv (s\<lparr>ticks := ticks s + 1\<rparr>)"
    by (simp add: sched_inv_def queues_ok_def is_thread_def t_status_def)
  from a obtain t where t: "thread_current (s\<lparr>ticks := ticks s + 1\<rparr>) = Inr t"
    by (auto simp: thread_tick_def split: sum.splits)
  from a thread_tick_Inr[OF t] have k: "freed s2 = freed s" "destruction_req s2 = destruction_req s"
    by auto
  from thread_tick_inv[OF a i1] have "valid_queue (mem s2) (sleep_list s2) THREAD_BLOCKED"
    by (simp add: sched_inv_def queues_ok_def)
  from thread_wakeup_result[OF this, of "ticks s + 1"] b k show ?thesis
    by (auto simp: after_wakeup_def)
next
  case Idle_register
  with e show ?thesis
    by (auto simp: idle_register_def split: sum.splits)
next
  case (Set_level l)
  with e show ?thesis
    by (auto simp: intr_set_level_def intr_enable_def intr_disable_def)
next
  case (Set_context b)
  with e show ?thesis by auto
qed

lemma exec_frees:
  assumes e: "exec c s = Inr s'" and a: "allowed c s" and inv: "sched_inv s"
  shows "\<exists>new. freed s' = freed s @ new \<and> set new \<subseteq> set (destruction_req s)
           \<and> cur s \<notin> set new \<and> cur s' \<notin> set new"
proof -
  note n = sched_inv_cur_not_queued[OF inv]
  have i': "sched_inv s'" by (rule exec_inv[OF e a inv])
  have "freed s' = freed s @ destruction_req s \<or> freed s' = freed s @ []"
  proof (cases "c = Yield \<or> c = Exit")
    case True
    with e thread_yield_frees(1)[of s s'] thread_exit_frees(1)[of s s'] show ?thesis by auto
  next
    case False
    with exec_keeps_queue[OF e inv] show ?thesis by simp
  qed
  moreover have "cur s' \<notin> set (destruction_req s)"
  proof (cases "c = Yield \<or> c = Exit")
    case False
    with exec_keeps_queue[OF e inv] sched_inv_cur_not_queued(3)[OF i'] show ?thesis by simp
  next
    case True
    from inv have q: "queues_ok s" by (simp add: sched_inv_def)
    then have d: "valid_queue (mem s) (destruction_req s) THREAD_DYING"
      and r: "valid_queue (mem s) (ready_list s) THREAD_READY"
      and i: "idle_thread s \<notin> set (destruction_req s)" by (simp_all add: queues_ok_def)
    have dj: "set (ready_list s) \<inter> set (destruction_req s) = {}"
      by (rule valid_queue_disjoint[OF r d]) simp
    have "cur s' \<in> set (ready_list s) \<union> {cur s, idle_thread s}"
    proof (cases "c = Yield")
      case True
      with e have y: "thread_yield s = Inr s'" by simp
      have "cur s' \<in> set (cur s' # ready_list s')" by simp
      then show ?thesis unfolding thread_yield_frees(4)[OF y] by (auto split: if_splits)
    next
      case False
      with \<open>c = Yield \<or> c = Exit\<close> e have x: "thread_exit s = Inr s'" by simp
      from do_schedule_frees(3)[OF thread_exit_Inr(2)[OF x]]
      have "cur s' = sched_next s"
        by (simp add: sched_next_def intr_disable_def split: list.split)
      then show ?thesis by (cases "ready_list s") (simp_all add: sched_next_def)
    qed
    with dj i n show ?thesis by auto
  qed
  ultimately show ?thesis using n by auto
qed

subsection \<open>Progress: when the scheduling operations return\<close>

lemma schedule_ok:
  assumes "intr_get_level s = INTR_OFF" and "t_status s (cur s) \<noteq> THREAD_RUNNING"
    and "is_thread s (sched_next s)"
  shows "\<exists>s'. schedule s = Inr s'"
  using assms
  by (auto simp: schedule_def next_thread_to_run_eq running_thread_def Let_def thread_launch_def
        intr_get_level_def is_thread_def t_status_def set_status_def)

lemma intr_get_level_cong: "cpu s' = cpu s \<Longrightarrow> intr_get_level s' = intr_get_level s"
  by (simp add: intr_get_level_def)

lemma do_schedule_ok:
  assumes l: "intr_get_level s = INTR_OFF" and c: "is_thread s (cur s)"
    "t_status s (cur s) = THREAD_RUNNING"
    and st: "st \<noteq> THREAD_RUNNING" and n: "is_thread s (sched_next s)"
  shows "\<exists>s'. do_schedule st s = Inr s'"
proof -
  let ?x = "set_status (cur s) st (drained s)"
  from c have tc: "thread_current s = Inr (cur s)" by (simp add: thread_current_Inr)
  have "thread_current (drained s) = thread_current s"
    by (rule thread_current_Inr_cong) (simp_all add: drained_def)
  with tc have tc': "thread_current (drained s) = Inr (cur s)" by simp
  have e: "do_schedule st s = schedule ?x"
    using l tc tc' by (simp add: do_schedule_def destroy_all_result drained_def[symmetric])
  have "intr_get_level ?x = intr_get_level s"
    by (rule intr_get_level_cong) (simp add: set_status_def drained_def)
  moreover have "t_status ?x (cur ?x) \<noteq> THREAD_RUNNING"
    using st by (simp add: set_status_def drained_def t_status_def)
  moreover have "sched_next ?x = sched_next s"
    by (simp add: set_status_def drained_def sched_next_def split: list.split)
  then have "is_thread ?x (sched_next ?x)"
    using n by (auto simp: set_status_def drained_def is_thread_def)
  ultimately show ?thesis using l schedule_ok[of ?x] by (simp add: e)
qed

lemma thread_yield_ok:
  assumes inv: "sched_inv s" and n: "\<not> intr_context s"
  shows "\<exists>s'. thread_yield s = Inr s'"
proof -
  from inv have c: "is_thread s (cur s)" "t_status s (cur s) = THREAD_RUNNING"
    and q: "queues_ok s" by (simp_all add: sched_inv_def)
  then have tc: "thread_current s = Inr (cur s)" by (simp add: thread_current_Inr)
  let ?q = "if cur s \<noteq> idle_thread s then ready_list s @ [cur s] else ready_list s"
  let ?s2 = "(intr_disable s)\<lparr>ready_list := ?q\<rparr>"
  from q have r: "valid_queue (mem s) (ready_list s) THREAD_READY" by (simp add: queues_ok_def)
  have "is_thread s (sched_next ?s2)"
  proof (cases "ready_list s")
    case Nil
    show ?thesis
    proof (cases "cur s = idle_thread s")
      case True
      with Nil c show ?thesis by (simp add: sched_next_def intr_disable_def)
    next
      case False
      with Nil c show ?thesis by (simp add: sched_next_def intr_disable_def)
    qed
  next
    case (Cons t ts)
    with valid_queue_member[OF r, of t] have "is_thread s t" by (simp add: is_thread_def)
    with Cons show ?thesis by (simp add: sched_next_def intr_disable_def)
  qed
  then have n2: "is_thread ?s2 (sched_next ?s2)" by (simp add: is_thread_def intr_disable_def)
  have l2: "intr_get_level ?s2 = INTR_OFF"
    using intr_get_level_cong[of ?s2 "intr_disable s"] by (simp add: intr_get_level_disable)
  have c2: "is_thread ?s2 (cur ?s2)" "t_status ?s2 (cur ?s2) = THREAD_RUNNING"
    using c by (simp_all add: is_thread_def t_status_def intr_disable_def)
  from do_schedule_ok[OF l2 c2 _ n2, of THREAD_READY] obtain s3 where
    "do_schedule THREAD_READY ?s2 = Inr s3" by auto
  then show ?thesis by (simp add: thread_yield_eq[OF tc n])
qed

lemma thread_exit_ok:
  assumes inv: "sched_inv s" and n: "\<not> intr_context s" and r: "ready_list s \<noteq> []"
  shows "\<exists>s'. thread_exit s = Inr s'"
proof -
  from inv have c: "is_thread s (cur s)" "t_status s (cur s) = THREAD_RUNNING"
    and q: "queues_ok s" by (simp_all add: sched_inv_def)
  from q have v: "valid_queue (mem s) (ready_list s) THREAD_READY" by (simp add: queues_ok_def)
  from r obtain t ts where l: "ready_list s = t # ts" by (cases "ready_list s") auto
  with valid_queue_member[OF v, of t] have t: "is_thread s t" by (simp add: is_thread_def)
  from l sched_inv_cur_not_queued(1)[OF inv] have ne: "t \<noteq> cur s" by auto
  let ?s1 = "intr_disable s"
  have n1: "sched_next ?s1 = t" using l by (simp add: sched_next_def intr_disable_def)
  have "\<exists>s'. do_schedule THREAD_DYING ?s1 = Inr s'"
  proof (rule do_schedule_ok)
    show "intr_get_level ?s1 = INTR_OFF" by (rule intr_get_level_disable)
    show "is_thread ?s1 (cur ?s1)" using c by (simp add: is_thread_def intr_disable_def)
    show "t_status ?s1 (cur ?s1) = THREAD_RUNNING"
      using c by (simp add: t_status_def intr_disable_def)
    show "THREAD_DYING \<noteq> THREAD_RUNNING" by simp
    show "is_thread ?s1 (sched_next ?s1)"
      using t by (simp add: n1) (simp add: is_thread_def intr_disable_def)
  qed
  then obtain s' where d: "do_schedule THREAD_DYING ?s1 = Inr s'" by blast
  from do_schedule_frees(3)[OF d] n1 ne have "cur s' \<noteq> cur s" by simp
  with d n show ?thesis by (simp add: thread_exit_def)
qed

lemma run_keeps_queue:
  assumes "run calls s = Inr s'" and "sched_inv s"
    and "list_all (\<lambda>c. c \<noteq> Yield \<and> c \<noteq> Exit) calls"
  shows "freed s' = freed s \<and> destruction_req s' = destruction_req s"
  using assms
proof (induction calls arbitrary: s)
  case Nil
  then show ?case by simp
next
  case (Cons c calls)
  from Cons.prems(1) obtain s1 where a: "allowed c s" and e: "exec c s = Inr s1"
    and r: "run calls s1 = Inr s'"
    by (auto split: if_splits sum.splits)
  from Cons.prems(3) have c: "c \<noteq> Yield" "c \<noteq> Exit"
    and l: "list_all (\<lambda>c. c \<noteq> Yield \<and> c \<noteq> Exit) calls" by simp_all
  from exec_keeps_queue[OF e Cons.prems(2) c] Cons.IH[OF r exec_inv[OF e a Cons.prems(2)] l]
  show ?case by simp
qed

lemma sched_inv_ex_state: "sched_inv ex_state"
  by (simp add: sched_inv_def queues_ok_def valid_queue_def ex_defs)

lemma sched_inv_ex_worker: "sched_inv ex_worker"
  by (simp add: sched_inv_def queues_ok_def valid_queue_def ex_worker_def ex_defs)

lemma sched_inv_ex_idle: "sched_inv ex_idle"
  by (simp add: sched_inv_def queues_ok_def valid_queue_def ex_idle_def ex_defs)

text \<open>Claim C9: \<^verbatim>\<open>thread_yield\<close> fails its assertion in interrupt context. Outside it, the caller is appended to the tail of the ready queue if and only if it is not the idle thread, and then the scheduling decision runs with target status \<^verbatim>\<open>THREAD_READY\<close>. In a well-formed state the call returns, the state stays well formed, the thread chosen is the head of the queue so extended, and the idle thread is not in the ready queue afterwards. More generally the idle thread is in the ready queue of no state reached by a run of calls from a well-formed state, and \<^verbatim>\<open>thread_init\<close> establishes a well-formed state.\<close>

theorem thread_yield_contract:
  "(thread_current s = Inr c \<and> intr_context s \<longrightarrow>
      thread_yield s = Inl (ASSERT_failed ''!intr_context ()''))
   \<and> (thread_current s = Inr c \<and> \<not> intr_context s \<longrightarrow>
        thread_yield s =
          (case do_schedule THREAD_READY
             ((intr_disable s)\<lparr>ready_list :=
                (if cur s \<noteq> idle_thread s then ready_list s @ [cur s] else ready_list s)\<rparr>) of
             Inl e \<Rightarrow> Inl e
           | Inr s3 \<Rightarrow>
               Inr (if cur s3 = cur s then intr_set_level (intr_get_level s) s3 else s3)))
   \<and> (sched_inv s \<and> \<not> intr_context s \<longrightarrow> (\<exists>s'. thread_yield s = Inr s'))
   \<and> (sched_inv s \<and> thread_yield s = Inr s' \<longrightarrow>
        sched_inv s' \<and> idle_thread s' = idle_thread s
        \<and> idle_thread s' \<notin> set (ready_list s')
        \<and> cur s' # ready_list s' =
             (if cur s \<noteq> idle_thread s then ready_list s @ [cur s]
              else if ready_list s = [] then [idle_thread s] else ready_list s)
        \<and> (cur s' \<noteq> cur s \<longrightarrow> t_status s' (cur s) = THREAD_READY))
   \<and> (sched_inv start \<and> run calls start = Inr s \<longrightarrow> idle_thread s \<notin> set (ready_list s))
   \<and> (thread_init (boot m regs sp pool) = Inr start \<and> distinct pool \<and> NULL \<notin> set pool
        \<and> sp \<notin> set pool \<longrightarrow> sched_inv start)"
proof (intro conjI impI)
  assume "thread_current s = Inr c \<and> intr_context s"
  then show "thread_yield s = Inl (ASSERT_failed ''!intr_context ()'')"
    by (simp add: thread_yield_def)
next
  assume "thread_current s = Inr c \<and> \<not> intr_context s"
  then show "thread_yield s =
          (case do_schedule THREAD_READY
             ((intr_disable s)\<lparr>ready_list :=
                (if cur s \<noteq> idle_thread s then ready_list s @ [cur s] else ready_list s)\<rparr>) of
             Inl e \<Rightarrow> Inl e
           | Inr s3 \<Rightarrow>
               Inr (if cur s3 = cur s then intr_set_level (intr_get_level s) s3 else s3))"
    using thread_yield_eq[of s c] by simp
next
  assume "sched_inv s \<and> \<not> intr_context s"
  then show "\<exists>s'. thread_yield s = Inr s'" using thread_yield_ok by simp
next
  assume a: "sched_inv s \<and> thread_yield s = Inr s'"
  then have y: "thread_yield s = Inr s'" and inv: "sched_inv s" by simp_all
  show i': "sched_inv s'" by (rule thread_yield_inv[OF y inv])
  show "idle_thread s' = idle_thread s" by (rule thread_yield_frees[OF y])
  show "idle_thread s' \<notin> set (ready_list s')" by (rule sched_inv_idle_not_ready[OF i'])
  show "cur s' # ready_list s' =
             (if cur s \<noteq> idle_thread s then ready_list s @ [cur s]
              else if ready_list s = [] then [idle_thread s] else ready_list s)"
    by (rule thread_yield_frees[OF y])
  assume "cur s' \<noteq> cur s"
  with thread_yield_frees(5)[OF y] show "t_status s' (cur s) = THREAD_READY" by simp
next
  assume "sched_inv start \<and> run calls start = Inr s"
  then have "sched_inv s" using run_inv by blast
  then show "idle_thread s \<notin> set (ready_list s)" by (rule sched_inv_idle_not_ready)
next
  assume "thread_init (boot m regs sp pool) = Inr start \<and> distinct pool \<and> NULL \<notin> set pool
        \<and> sp \<notin> set pool"
  then show "sched_inv start" using thread_init_inv by blast
qed

lemma ex_state_fields:
  "cur ex_state = 0x1000" "idle_thread ex_state = 0x2000" "ready_list ex_state = [0x3000]"
  "\<not> intr_context ex_state" "initial_thread ex_state = 0x1000"
  "destruction_req ex_state = []" "freed ex_state = []"
  by (simp_all add: ex_state_def boot_def intr_context_def)

lemma ex_idle_fields:
  "cur ex_idle = 0x2000" "idle_thread ex_idle = 0x2000" "ready_list ex_idle = [0x3000]"
  "\<not> intr_context ex_idle"
  by (simp_all add: ex_idle_def ex_state_def boot_def intr_context_def)

lemma ex_worker_fields:
  "cur ex_worker = 0x3000" "idle_thread ex_worker = 0x2000" "ready_list ex_worker = [0x1000]"
  "\<not> intr_context ex_worker" "initial_thread ex_worker = 0x1000"
  "destruction_req ex_worker = []" "freed ex_worker = []"
  by (simp_all add: ex_worker_def ex_state_def boot_def intr_context_def)

theorem thread_yield_contract_witness:
  "sched_inv ex_state \<and> \<not> intr_context ex_state
   \<and> thread_current ex_state = Inr 0x1000
   \<and> (\<exists>s'. thread_yield ex_state = Inr s' \<and> cur s' = 0x3000 \<and> ready_list s' = [0x1000]
          \<and> t_status s' 0x1000 = THREAD_READY \<and> idle_thread s' \<notin> set (ready_list s'))
   \<and> sched_inv ex_idle \<and> \<not> intr_context ex_idle \<and> cur ex_idle = idle_thread ex_idle
   \<and> (\<exists>s'. thread_yield ex_idle = Inr s' \<and> cur s' = 0x3000 \<and> ready_list s' = [])
   \<and> thread_current (ex_state\<lparr>in_external_intr := True\<rparr>) = Inr 0x1000
   \<and> intr_context (ex_state\<lparr>in_external_intr := True\<rparr>)
   \<and> thread_yield (ex_state\<lparr>in_external_intr := True\<rparr>) = Inl (ASSERT_failed ''!intr_context ()'')
   \<and> (\<exists>s. run [Yield] ex_state = Inr s \<and> idle_thread s \<notin> set (ready_list s))
   \<and> (\<exists>s0. thread_init (boot ex_mem zero_frame 0x1000 [0x5000, 0x6000]) = Inr s0 \<and> sched_inv s0)"
proof -
  note i = sched_inv_ex_state
  note f = ex_state_fields
  have tc: "thread_current ex_state = Inr 0x1000" by (rule ex_state_current)
  from thread_yield_ok[OF i f(4)] obtain s1 where y1: "thread_yield ex_state = Inr s1" by blast
  from thread_yield_contract[where s=ex_state and s'=s1] i y1
  have "cur s1 # ready_list s1 =
             (if cur ex_state \<noteq> idle_thread ex_state then ready_list ex_state @ [cur ex_state]
              else if ready_list ex_state = [] then [idle_thread ex_state] else ready_list ex_state)"
    and "idle_thread s1 \<notin> set (ready_list s1)"
    and "cur s1 \<noteq> cur ex_state \<longrightarrow> t_status s1 (cur ex_state) = THREAD_READY"
    by blast+
  then have p1: "\<exists>s'. thread_yield ex_state = Inr s' \<and> cur s' = 0x3000 \<and> ready_list s' = [0x1000]
          \<and> t_status s' 0x1000 = THREAD_READY \<and> idle_thread s' \<notin> set (ready_list s')"
    using y1 by (simp add: f)
  note j = sched_inv_ex_idle
  note g = ex_idle_fields
  from thread_yield_ok[OF j g(4)] obtain s2 where y2: "thread_yield ex_idle = Inr s2" by blast
  from thread_yield_contract[where s=ex_idle and s'=s2] j y2
  have "cur s2 # ready_list s2 =
             (if cur ex_idle \<noteq> idle_thread ex_idle then ready_list ex_idle @ [cur ex_idle]
              else if ready_list ex_idle = [] then [idle_thread ex_idle] else ready_list ex_idle)"
    by blast
  then have p2: "\<exists>s'. thread_yield ex_idle = Inr s' \<and> cur s' = 0x3000 \<and> ready_list s' = []"
    using y2 by (simp add: g)
  let ?e = "ex_state\<lparr>in_external_intr := True\<rparr>"
  have "thread_current ?e = thread_current ex_state"
    by (rule thread_current_Inr_cong) simp_all
  with tc have tce: "thread_current ?e = Inr 0x1000" by simp
  have ie: "intr_context ?e" by (simp add: intr_context_def)
  from thread_yield_contract[where s="?e" and c="0x1000"] tce ie
  have p3: "thread_yield ?e = Inl (ASSERT_failed ''!intr_context ()'')" by blast
  have r: "run [Yield] ex_state = Inr s1" using y1 by simp
  from thread_yield_contract[where start=ex_state and calls="[Yield]" and s=s1] i r
  have "idle_thread s1 \<notin> set (ready_list s1)" by blast
  with r have p4: "\<exists>s. run [Yield] ex_state = Inr s \<and> idle_thread s \<notin> set (ready_list s)"
    by blast
  let ?b = "boot ex_mem zero_frame 0x1000 [0x5000, 0x6000]"
  have "intr_get_level ?b = INTR_OFF"
    by (simp add: intr_get_level_def boot_def zero_frame_def)
  from thread_init_result[OF this] obtain s0 where ti: "thread_init ?b = Inr s0"
    by (auto simp: NULL_def)
  from thread_yield_contract[where start=s0 and m=ex_mem and regs=zero_frame and sp="0x1000"
      and pool="[0x5000, 0x6000]"] ti
  have "sched_inv s0" by (simp add: NULL_def)
  with ti have p5: "\<exists>s0. thread_init ?b = Inr s0 \<and> sched_inv s0" by blast
  from i f(4) tc p1 j g(4) g(1,2) p2 tce ie p3 p4 p5 show ?thesis by simp
qed

lemma schedule_context:
  assumes "schedule s = Inr s'"
  shows "in_external_intr s' = in_external_intr s"
  unfolding schedule_result[OF assms] by simp

lemma thread_exit_context:
  assumes "thread_exit s = Inr s'"
  shows "intr_context s' = intr_context s"
  using schedule_context[OF do_schedule_Inr(4)[OF thread_exit_Inr(2)[OF assms]]]
  by (simp add: intr_context_def set_status_def drained_def intr_disable_def)

lemma thread_tick_context:
  assumes "thread_tick s = Inr s'"
  shows "intr_context s' = intr_context s"
proof -
  from assms obtain t where t: "thread_current s = Inr t"
    by (auto simp: thread_tick_def split: sum.splits)
  from assms thread_tick_Inr[OF t] show ?thesis
    by (auto simp: intr_context_def split: if_splits)
qed

lemma thread_tick_ok:
  assumes "sched_inv s"
  shows "\<exists>s'. thread_tick s = Inr s'"
proof -
  from assms have "thread_current s = Inr (cur s)"
    by (simp add: thread_current_Inr sched_inv_def)
  from thread_tick_Inr[OF this] show ?thesis by blast
qed

lemma count_list_append: "count_list (xs @ ys) x = count_list xs x + count_list ys x"
  by (induction xs) simp_all

lemma count_list_notin: "x \<notin> set xs \<Longrightarrow> count_list xs x = 0"
  by (induction xs) auto

text \<open>Claim C2: in every state reached by a run of calls from a well-formed state, the pages a call passes to \<^verbatim>\<open>palloc_free_page\<close> are pages of the destruction queue, and neither the thread running when the call is made nor the thread running when it returns is among them. The scheduling decision frees exactly the queued pages and afterwards queues only the outgoing thread, when that thread is dying and is not the bootstrap thread. A thread other than the idle and the bootstrap thread that exits is queued, not freed, by its own exit; its page is freed by the next scheduling decision of \<^verbatim>\<open>thread_yield\<close> or \<^verbatim>\<open>thread_exit\<close>, made while another thread is running, exactly once, and is not queued again.\<close>

theorem no_self_free:
  "(sched_inv start \<and> run calls start = Inr s \<and> allowed c s \<and> exec c s = Inr s' \<longrightarrow>
      (\<exists>new. freed s' = freed s @ new \<and> set new \<subseteq> set (destruction_req s)
          \<and> cur s \<notin> set new \<and> cur s' \<notin> set new))
   \<and> (sched_inv s \<and> do_schedule st s = Inr s' \<longrightarrow>
        freed s' = freed s @ destruction_req s \<and> distinct (destruction_req s)
        \<and> cur s \<notin> set (destruction_req s)
        \<and> destruction_req s' =
             (if cur s' \<noteq> cur s \<and> st = THREAD_DYING \<and> cur s \<noteq> initial_thread s
              then [cur s] else []))
   \<and> (sched_inv s \<and> cur s \<noteq> idle_thread s \<and> cur s \<noteq> initial_thread s
        \<and> thread_exit s = Inr sa
        \<and> run calls sa = Inr sb \<and> list_all (\<lambda>k. k \<noteq> Yield \<and> k \<noteq> Exit) calls
        \<and> (c = Yield \<or> c = Exit) \<and> allowed c sb \<and> exec c sb = Inr sc \<longrightarrow>
        cur sa \<noteq> cur s \<and> t_status sa (cur s) = THREAD_DYING \<and> destruction_req sa = [cur s]
        \<and> count_list (freed sb) (cur s) = count_list (freed s) (cur s)
        \<and> cur sb \<noteq> cur s
        \<and> count_list (freed sc) (cur s) = count_list (freed s) (cur s) + 1
        \<and> cur s \<notin> set (destruction_req sc))"
proof (intro conjI impI)
  assume "sched_inv start \<and> run calls start = Inr s \<and> allowed c s \<and> exec c s = Inr s'"
  then have i: "sched_inv s" and a: "allowed c s" and e: "exec c s = Inr s'"
    using run_inv by blast+
  from exec_frees[OF e a i]
  show "\<exists>new. freed s' = freed s @ new \<and> set new \<subseteq> set (destruction_req s)
          \<and> cur s \<notin> set new \<and> cur s' \<notin> set new" .
next
  assume h: "sched_inv s \<and> do_schedule st s = Inr s'"
  then have i: "sched_inv s" and d: "do_schedule st s = Inr s'" by simp_all
  show "freed s' = freed s @ destruction_req s" by (rule do_schedule_frees[OF d])
  from i show "distinct (destruction_req s)"
    by (simp add: sched_inv_def queues_ok_def valid_queue_def)
  show "cur s \<notin> set (destruction_req s)" by (rule sched_inv_cur_not_queued[OF i])
  show "destruction_req s' =
             (if cur s' \<noteq> cur s \<and> st = THREAD_DYING \<and> cur s \<noteq> initial_thread s
              then [cur s] else [])"
    by (rule do_schedule_frees[OF d])
next
  assume h: "sched_inv s \<and> cur s \<noteq> idle_thread s \<and> cur s \<noteq> initial_thread s
        \<and> thread_exit s = Inr sa
        \<and> run calls sa = Inr sb \<and> list_all (\<lambda>k. k \<noteq> Yield \<and> k \<noteq> Exit) calls
        \<and> (c = Yield \<or> c = Exit) \<and> allowed c sb \<and> exec c sb = Inr sc"
  then have i: "sched_inv s" and n: "cur s \<noteq> idle_thread s" "cur s \<noteq> initial_thread s"
    and x: "thread_exit s = Inr sa" and r: "run calls sa = Inr sb"
    and l: "list_all (\<lambda>k. k \<noteq> Yield \<and> k \<noteq> Exit) calls"
    and c: "c = Yield \<or> c = Exit" and a: "allowed c sb" and e: "exec c sb = Inr sc"
    by simp_all
  note f = thread_exit_frees[OF x]
  note q = sched_inv_cur_not_queued[OF i]
  show "cur sa \<noteq> cur s" by (rule f(3))
  show "t_status sa (cur s) = THREAD_DYING" by (rule f(4))
  show da: "destruction_req sa = [cur s]" using n by (simp add: f(2))
  have ia: "sched_inv sa" by (rule thread_exit_inv[OF x i n(1)])
  from run_keeps_queue[OF r ia l] have k: "freed sb = freed sa" "destruction_req sb = [cur s]"
    by (simp_all add: da)
  show cb: "count_list (freed sb) (cur s) = count_list (freed s) (cur s)"
    using q(3) by (simp add: k f(1) count_list_append count_list_notin)
  have ib: "sched_inv sb" by (rule run_inv[OF r ia])
  from sched_inv_cur_not_queued(3)[OF ib] show nb: "cur sb \<noteq> cur s" by (simp add: k)
  have fc: "freed sc = freed sb @ destruction_req sb"
    and dc: "destruction_req sc = [] \<or> destruction_req sc = [cur sb]"
  proof -
    from c show "freed sc = freed sb @ destruction_req sb"
    proof
      assume "c = Yield"
      with e have "thread_yield sb = Inr sc" by simp
      then show ?thesis by (rule thread_yield_frees)
    next
      assume "c = Exit"
      with e have "thread_exit sb = Inr sc" by simp
      then show ?thesis by (rule thread_exit_frees)
    qed
    from c show "destruction_req sc = [] \<or> destruction_req sc = [cur sb]"
    proof
      assume "c = Yield"
      with e have "thread_yield sb = Inr sc" by simp
      then show ?thesis by (simp add: thread_yield_frees)
    next
      assume "c = Exit"
      with e have "thread_exit sb = Inr sc" by simp
      then show ?thesis by (simp add: thread_exit_frees)
    qed
  qed
  from fc show "count_list (freed sc) (cur s) = count_list (freed s) (cur s) + 1"
    using cb by (simp add: k(2) count_list_append)
  from dc nb show "cur s \<notin> set (destruction_req sc)" by auto
qed

theorem no_self_free_witness:
  "sched_inv ex_worker \<and> cur ex_worker \<noteq> idle_thread ex_worker
   \<and> cur ex_worker \<noteq> initial_thread ex_worker
   \<and> list_all (\<lambda>k. k \<noteq> Yield \<and> k \<noteq> Exit) [Tick]
   \<and> (\<exists>sa sb sc. thread_exit ex_worker = Inr sa \<and> run [Tick] sa = Inr sb
         \<and> allowed Yield sb \<and> exec Yield sb = Inr sc
         \<and> cur sa \<noteq> 0x3000 \<and> t_status sa 0x3000 = THREAD_DYING
         \<and> destruction_req sa = [0x3000]
         \<and> count_list (freed sb) 0x3000 = 0 \<and> cur sb \<noteq> 0x3000
         \<and> count_list (freed sc) 0x3000 = 1 \<and> 0x3000 \<notin> set (destruction_req sc))
   \<and> run [] ex_worker = Inr ex_worker \<and> allowed Exit ex_worker
   \<and> (\<exists>s' new. exec Exit ex_worker = Inr s' \<and> freed s' = freed ex_worker @ new
         \<and> cur ex_worker \<notin> set new \<and> cur s' \<notin> set new)
   \<and> sched_inv ex_state
   \<and> (\<exists>s'. do_schedule THREAD_READY ex_state = Inr s' \<and> freed s' = [] \<and> destruction_req s' = [])"
proof -
  note i = sched_inv_ex_worker
  note f = ex_worker_fields
  have n: "cur ex_worker \<noteq> idle_thread ex_worker" "cur ex_worker \<noteq> initial_thread ex_worker"
    by (simp_all add: f)
  have l: "list_all (\<lambda>k. k \<noteq> Yield \<and> k \<noteq> Exit) [Tick]" by simp
  from thread_exit_ok[OF i f(4)] obtain sa where x: "thread_exit ex_worker = Inr sa"
    by (auto simp: f)
  have ia: "sched_inv sa" by (rule thread_exit_inv[OF x i n(1)])
  from thread_tick_ok[OF ia] obtain sb where t: "thread_tick sa = Inr sb" by blast
  then have r: "run [Tick] sa = Inr sb" by simp
  have ib: "sched_inv sb" by (rule thread_tick_inv[OF t ia])
  have "\<not> intr_context sb"
    using thread_tick_context[OF t] thread_exit_context[OF x] f(4) by simp
  from thread_yield_ok[OF ib this] obtain sc where y: "thread_yield sb = Inr sc" by blast
  then have e: "exec Yield sb = Inr sc" and a: "allowed Yield sb" by simp_all
  from no_self_free[where s=ex_worker and sa=sa and sb=sb and sc=sc and c=Yield and calls="[Tick]"]
    i n x r l a e
  have "cur sa \<noteq> cur ex_worker \<and> t_status sa (cur ex_worker) = THREAD_DYING
        \<and> destruction_req sa = [cur ex_worker]
        \<and> count_list (freed sb) (cur ex_worker) = count_list (freed ex_worker) (cur ex_worker)
        \<and> cur sb \<noteq> cur ex_worker
        \<and> count_list (freed sc) (cur ex_worker) = count_list (freed ex_worker) (cur ex_worker) + 1
        \<and> cur ex_worker \<notin> set (destruction_req sc)"
    by blast
  then have "cur sa \<noteq> 0x3000 \<and> t_status sa 0x3000 = THREAD_DYING
         \<and> destruction_req sa = [0x3000]
         \<and> count_list (freed sb) 0x3000 = 0 \<and> cur sb \<noteq> 0x3000
         \<and> count_list (freed sc) 0x3000 = 1 \<and> 0x3000 \<notin> set (destruction_req sc)"
    by (simp add: f)
  with x r a e have p1: "\<exists>sa sb sc. thread_exit ex_worker = Inr sa \<and> run [Tick] sa = Inr sb
         \<and> allowed Yield sb \<and> exec Yield sb = Inr sc
         \<and> cur sa \<noteq> 0x3000 \<and> t_status sa 0x3000 = THREAD_DYING
         \<and> destruction_req sa = [0x3000]
         \<and> count_list (freed sb) 0x3000 = 0 \<and> cur sb \<noteq> 0x3000
         \<and> count_list (freed sc) 0x3000 = 1 \<and> 0x3000 \<notin> set (destruction_req sc)"
    by blast
  have r0: "run [] ex_worker = Inr ex_worker" by simp
  have a0: "allowed Exit ex_worker" using n by simp
  have e0: "exec Exit ex_worker = Inr sa" using x by simp
  from no_self_free[where start=ex_worker and calls="[]" and s=ex_worker and c=Exit and s'=sa]
    i r0 a0 e0
  have "\<exists>new. freed sa = freed ex_worker @ new \<and> set new \<subseteq> set (destruction_req ex_worker)
          \<and> cur ex_worker \<notin> set new \<and> cur sa \<notin> set new" by blast
  with e0 have p2: "\<exists>s' new. exec Exit ex_worker = Inr s' \<and> freed s' = freed ex_worker @ new
         \<and> cur ex_worker \<notin> set new \<and> cur s' \<notin> set new" by blast
  note j = sched_inv_ex_state
  note g = ex_state_fields
  have "\<exists>s'. do_schedule THREAD_READY ex_state = Inr s'"
  proof (rule do_schedule_ok)
    show "intr_get_level ex_state = INTR_OFF"
      by (simp add: intr_get_level_def ex_state_def boot_def zero_frame_def)
    from j show "is_thread ex_state (cur ex_state)" "t_status ex_state (cur ex_state) = THREAD_RUNNING"
      by (simp_all add: sched_inv_def)
    show "THREAD_READY \<noteq> THREAD_RUNNING" by simp
    show "is_thread ex_state (sched_next ex_state)"
      by (simp add: sched_next_def g) (simp add: ex_defs)
  qed
  then obtain sd where d: "do_schedule THREAD_READY ex_state = Inr sd" by blast
  from no_self_free[where s=ex_state and st=THREAD_READY and s'=sd] j d
  have "freed sd = freed ex_state @ destruction_req ex_state
        \<and> destruction_req sd =
             (if cur sd \<noteq> cur ex_state \<and> THREAD_READY = THREAD_DYING
                 \<and> cur ex_state \<noteq> initial_thread ex_state
              then [cur ex_state] else [])"
    by blast
  with d have p3: "\<exists>s'. do_schedule THREAD_READY ex_state = Inr s' \<and> freed s' = []
       \<and> destruction_req s' = []"
    by (simp add: g)
  from i n l p1 r0 a0 p2 j p3 show ?thesis by blast
qed

subsection \<open>Sleepers are left alone by the other operations\<close>

lemma sched_inv_sleeper:
  assumes "sched_inv s" and "t \<in> set (sleep_list s)"
  shows "t_status s t = THREAD_BLOCKED" and "is_thread s t" and "t \<noteq> cur s"
    and "t \<notin> set (ready_list s)" and "t \<notin> set (free_pages s)" and "t \<noteq> idle_thread s"
proof -
  from assms(1) have q: "queues_ok s" and r: "t_status s (cur s) = THREAD_RUNNING"
    by (simp_all add: sched_inv_def)
  from q have v: "valid_queue (mem s) (sleep_list s) THREAD_BLOCKED"
    and w: "valid_queue (mem s) (ready_list s) THREAD_READY" by (simp_all add: queues_ok_def)
  note m = valid_queue_member[OF v assms(2)]
  from m show b: "t_status s t = THREAD_BLOCKED" and "is_thread s t"
    by (simp_all add: t_status_def is_thread_def)
  from b r show "t \<noteq> cur s" by auto
  show "t \<notin> set (ready_list s)" by (rule valid_queue_other_status[OF w]) (simp add: m)
  from q assms(2) show "t \<notin> set (free_pages s)" "t \<noteq> idle_thread s"
    by (auto simp: queues_ok_def)
qed

lemma schedule_sleep:
  assumes "schedule s = Inr s'"
  shows "sleep_list s' = sleep_list s" and "wakeup_ticks (mem s' t) = wakeup_ticks (mem s t)"
  by (rule schedule_fields[OF assms])+

lemma do_schedule_sleep:
  assumes "do_schedule st s = Inr s'"
  shows "sleep_list s' = sleep_list s" and "wakeup_ticks (mem s' t) = wakeup_ticks (mem s t)"
  using schedule_sleep[OF do_schedule_Inr(4)[OF assms]]
  by (simp_all add: set_status_def drained_def)

lemma thread_yield_sleep:
  assumes y: "thread_yield s = Inr s'"
  shows "sleep_list s' = sleep_list s" and "wakeup_ticks (mem s' t) = wakeup_ticks (mem s t)"
proof -
  from thread_yield_Inr(4)[OF y] obtain s3 where
    d: "do_schedule THREAD_READY ((intr_disable s)\<lparr>ready_list :=
                (if cur s \<noteq> idle_thread s then ready_list s @ [cur s] else ready_list s)\<rparr>)
            = Inr s3"
    and s': "s' = (if cur s3 = cur s then intr_set_level (intr_get_level s) s3 else s3)"
    by blast
  have k: "sleep_list s' = sleep_list s3" "mem s' = mem s3"
    by (simp_all add: s' intr_set_level_def intr_enable_def intr_disable_def)
  show "sleep_list s' = sleep_list s" "wakeup_ticks (mem s' t) = wakeup_ticks (mem s t)"
    using do_schedule_sleep[OF d] by (simp_all add: k intr_disable_def)
qed

lemma thread_exit_sleep:
  assumes x: "thread_exit s = Inr s'"
  shows "sleep_list s' = sleep_list s" and "wakeup_ticks (mem s' t) = wakeup_ticks (mem s t)"
  using do_schedule_sleep[OF thread_exit_Inr(2)[OF x]]
  by (simp_all add: intr_disable_def)

lemma thread_block_sleep:
  assumes b: "thread_block s = Inr s'"
  shows "sleep_list s' = sleep_list s" and "wakeup_ticks (mem s' t) = wakeup_ticks (mem s t)"
  using schedule_sleep[OF thread_block_Inr(5)[OF b]]
  by (simp_all add: set_status_def)

lemma thread_sleep_sleep:
  assumes sl: "thread_sleep deadline s = Inr s'"
  shows "sleep_list s' = sleep_list (sleep_pre deadline s)"
    and "wakeup_ticks (mem s' t) = (if t = cur s then deadline else wakeup_ticks (mem s t))"
    and "t_status s' (cur s) = (if cur s' = cur s then THREAD_RUNNING else THREAD_BLOCKED)"
    and "ready_list s' = tl (ready_list s)"
    and "cur s' = sched_next s"
proof -
  from thread_sleep_Inr(4)[OF sl] obtain s4 where
    sch: "schedule (intr_disable (sleep_pre deadline s)) = Inr s4"
    and s': "s' = (if cur s4 = cur s then intr_set_level (intr_get_level s) s4 else s4)"
    by blast
  have k: "sleep_list s' = sleep_list s4" "mem s' = mem s4" "cur s' = cur s4"
    "ready_list s' = ready_list s4"
    by (simp_all add: s' intr_set_level_def intr_enable_def intr_disable_def)
  note f = schedule_fields[OF sch]
  have n: "sched_next (intr_disable (sleep_pre deadline s)) = sched_next s"
    by (simp add: sched_next_def intr_disable_def sleep_pre_fields split: list.split)
  show "sleep_list s' = sleep_list (sleep_pre deadline s)"
    by (simp add: k f intr_disable_def)
  show "wakeup_ticks (mem s' t) = (if t = cur s then deadline else wakeup_ticks (mem s t))"
    by (simp add: k f) (simp add: intr_disable_def sleep_pre_fields)
  show "cur s' = sched_next s" by (simp add: k f n)
  show "ready_list s' = tl (ready_list s)" by (simp add: k f) (simp add: intr_disable_def sleep_pre_fields)
  have "t_status s4 (cur s) = (if cur s = sched_next s then THREAD_RUNNING else THREAD_BLOCKED)"
    by (simp add: f n) (simp add: t_status_def intr_disable_def sleep_pre_fields)
  then show "t_status s' (cur s) = (if cur s' = cur s then THREAD_RUNNING else THREAD_BLOCKED)"
    using \<open>cur s' = sched_next s\<close> by (auto simp: t_status_def k)
qed

lemma count_list_distinct: "distinct xs \<Longrightarrow> x \<in> set xs \<Longrightarrow> count_list xs x = 1"
  by (induction xs) (auto simp: count_list_notin)

lemma after_wakeup_fields:
  assumes so: "sorted_wrt (deadline_le (mem s)) (sleep_list s)"
  shows "sleep_list (after_wakeup now s) = filter (\<lambda>t. \<not> due now (mem s) t) (sleep_list s)"
    and "ready_list (after_wakeup now s) = ready_list s @ filter (due now (mem s)) (sleep_list s)"
    and "wakeup_ticks (mem (after_wakeup now s) t) = wakeup_ticks (mem s t)"
    and "t_status (after_wakeup now s) t =
           (if t \<in> set (sleep_list s) \<and> due now (mem s) t then THREAD_READY else t_status s t)"
    and "cur (after_wakeup now s) = cur s"
  by (simp_all add: after_wakeup_def woken_def sorted_takeWhile_due[OF so] t_status_def)

lemma thread_wakeup_keeps:
  assumes inv: "sched_inv s" and sl: "sleeping s t T" and w: "thread_wakeup now s = Inr s'"
    and e: "sint now < sint T"
  shows "t \<in> set (sleep_list s')" and "wakeup_ticks (mem s' t) = T"
proof -
  from inv have q: "queues_ok s" by (simp add: sched_inv_def)
  then have v: "valid_queue (mem s) (sleep_list s) THREAD_BLOCKED"
    and so: "sorted_wrt (deadline_le (mem s)) (sleep_list s)" by (simp_all add: queues_ok_def)
  from w thread_wakeup_result[OF v, of now] have s': "s' = after_wakeup now s" by simp
  from sl e have "\<not> due now (mem s) t" by (simp add: due_def sleeping_def)
  with sl show "t \<in> set (sleep_list s')" "wakeup_ticks (mem s' t) = T"
    by (simp_all add: s' after_wakeup_fields[OF so] sleeping_def)
qed

lemma thread_wakeup_wakes:
  assumes inv: "sched_inv s" and sl: "sleeping s t T" and e: "sint T \<le> sint now"
  shows "thread_wakeup now s = Inr (after_wakeup now s)"
    and "t \<notin> set (sleep_list (after_wakeup now s))"
    and "t_status (after_wakeup now s) t = THREAD_READY"
    and "count_list (ready_list (after_wakeup now s)) t = 1"
    and "ready_list (after_wakeup now s) =
           ready_list s @ filter (due now (mem s)) (sleep_list s)"
    and "cur (after_wakeup now s) = cur s"
proof -
  from inv have q: "queues_ok s" by (simp add: sched_inv_def)
  then have v: "valid_queue (mem s) (sleep_list s) THREAD_BLOCKED"
    and so: "sorted_wrt (deadline_le (mem s)) (sleep_list s)" by (simp_all add: queues_ok_def)
  note f = after_wakeup_fields[OF so]
  from sl have m: "t \<in> set (sleep_list s)" by (simp add: sleeping_def)
  from sl e have d: "due now (mem s) t" by (simp add: due_def sleeping_def)
  show "thread_wakeup now s = Inr (after_wakeup now s)" by (rule thread_wakeup_result[OF v])
  show "t \<notin> set (sleep_list (after_wakeup now s))" using d by (simp add: f)
  show "t_status (after_wakeup now s) t = THREAD_READY" using d m by (simp add: f)
  show "ready_list (after_wakeup now s) =
           ready_list s @ filter (due now (mem s)) (sleep_list s)" by (rule f)
  show "cur (after_wakeup now s) = cur s" by (rule f)
  have "distinct (sleep_list s)" by (rule valid_queue_distinct[OF v])
  then have "count_list (filter (due now (mem s)) (sleep_list s)) t = 1"
    using m d by (intro count_list_distinct) simp_all
  then show "count_list (ready_list (after_wakeup now s)) t = 1"
    using sched_inv_sleeper(4)[OF inv m]
    by (simp add: f count_list_append count_list_notin)
qed

lemma sleeping_intro:
  assumes "sched_inv s" and "t \<in> set (sleep_list s)" and "wakeup_ticks (mem s t) = T"
  shows "sleeping s t T"
  using assms sched_inv_sleeper(1)[OF assms(1,2)] by (simp add: sleeping_def)

lemma exec_keeps_sleeper:
  assumes inv: "sched_inv s" and sl: "sleeping s t T" and a: "allowed c s"
    and e: "exec c s = Inr s'"
    and w: "case wake_time c s of None \<Rightarrow> True | Some now \<Rightarrow> sint now < sint T"
  shows "sleeping s' t T"
proof -
  have i': "sched_inv s'" by (rule exec_inv[OF e a inv])
  from sl have m: "t \<in> set (sleep_list s)" and d: "wakeup_ticks (mem s t) = T"
    by (simp_all add: sleeping_def)
  note n = sched_inv_sleeper[OF inv m]
  have "t \<in> set (sleep_list s') \<and> wakeup_ticks (mem s' t) = T"
  proof (cases c)
    case (Create nm prio f aux)
    with e obtain r where t: "thread_create nm prio f aux s = Inr (r, s')"
      by (auto split: sum.splits)
    from inv have "NULL \<notin> set (free_pages s)" by (simp add: sched_inv_def queues_ok_def)
    from thread_create_Inr[OF t this] m d n(5) show ?thesis by auto
  next
    case Block
    with e have "thread_block s = Inr s'" by simp
    from thread_block_sleep(1)[OF this] thread_block_sleep(2)[OF this, of t] m d show ?thesis by simp
  next
    case (Unblock u)
    with e have "thread_unblock u s = Inr s'" by simp
    from thread_unblock_Inr(3)[OF this] m d show ?thesis by auto
  next
    case Yield
    with e have "thread_yield s = Inr s'" by simp
    from thread_yield_sleep(1)[OF this] thread_yield_sleep(2)[OF this, of t] m d show ?thesis by simp
  next
    case Exit
    with e have "thread_exit s = Inr s'" by simp
    from thread_exit_sleep(1)[OF this] thread_exit_sleep(2)[OF this, of t] m d show ?thesis by simp
  next
    case (Sleep dl)
    with e have "thread_sleep dl s = Inr s'" by simp
    from thread_sleep_sleep(1)[OF this] thread_sleep_sleep(2)[OF this, of t] m d n(3) show ?thesis
      by (simp add: sleep_pre_fields set_list_insert_ordered)
  next
    case (Timer_sleep tk)
    with e have "thread_sleep (ticks s + tk) s = Inr s'"
      by (simp add: timer_sleep_eq split: if_splits)
    from thread_sleep_sleep(1)[OF this] thread_sleep_sleep(2)[OF this, of t] m d n(3) show ?thesis
      by (simp add: sleep_pre_fields set_list_insert_ordered)
  next
    case Tick
    with e obtain u where u: "thread_current s = Inr u"
      by (auto simp: thread_tick_def split: sum.splits)
    from e Tick thread_tick_Inr[OF u] m d show ?thesis by (auto split: if_splits)
  next
    case (Wakeup now)
    with e w thread_wakeup_keeps[OF inv sl, of now s'] show ?thesis by simp
  next
    case Timer_interrupt
    with e have "timer_interrupt s = Inr s'" by simp
    from timer_interrupt_Inr[OF this] obtain sm where
      x: "thread_tick (s\<lparr>ticks := ticks s + 1\<rparr>) = Inr sm"
      and y: "thread_wakeup (ticks s + 1) sm = Inr s'" by blast
    from inv have i1: "sched_inv (s\<lparr>ticks := ticks s + 1\<rparr>)"
      by (simp add: sched_inv_def queues_ok_def is_thread_def t_status_def)
    from x obtain u where u: "thread_current (s\<lparr>ticks := ticks s + 1\<rparr>) = Inr u"
      by (auto simp: thread_tick_def split: sum.splits)
    from x thread_tick_Inr[OF u] have k: "sleep_list sm = sleep_list s" "mem sm = mem s"
      by (auto split: if_splits)
    have im: "sched_inv sm" by (rule thread_tick_inv[OF x i1])
    from sl k have sm: "sleeping sm t T" by (simp add: sleeping_def t_status_def)
    from w Timer_interrupt have "sint (ticks s + 1) < sint T" by simp
    from thread_wakeup_keeps[OF im sm y this] show ?thesis by simp
  next
    case Idle_register
    with e m d show ?thesis by (auto simp: idle_register_def split: sum.splits)
  next
    case (Set_level l)
    with e m d show ?thesis
      by (auto simp: intr_set_level_def intr_enable_def intr_disable_def)
  next
    case (Set_context b)
    with e m d show ?thesis by auto
  qed
  then show ?thesis using sleeping_intro[OF i'] by simp
qed

lemma run_keeps_sleeper:
  assumes "sched_inv s" and "sleeping s t T" and "run calls s = Inr s'" and "early T calls s"
  shows "sleeping s' t T"
  using assms
proof (induction calls arbitrary: s)
  case Nil
  then show ?case by simp
next
  case (Cons c calls)
  from Cons.prems(3) obtain sm where a: "allowed c s" and e: "exec c s = Inr sm"
    and r: "run calls sm = Inr s'"
    by (auto split: if_splits sum.splits)
  from Cons.prems(4) e have w: "case wake_time c s of None \<Rightarrow> True | Some now \<Rightarrow> sint now < sint T"
    and er: "early T calls sm" by simp_all
  from Cons.IH[OF exec_inv[OF e a Cons.prems(1)]
      exec_keeps_sleeper[OF Cons.prems(1,2) a e w] r er]
  show ?case .
qed

lemma thread_sleep_result:
  assumes inv: "sched_inv s" and i: "cur s \<noteq> idle_thread s"
    and sl: "thread_sleep T s = Inr s'"
  shows "sleeping s' (cur s) T" and "cur s' \<noteq> cur s"
    and "sleep_list s' =
           filter (\<lambda>t. sint (wakeup_ticks (mem s t)) \<le> sint T) (sleep_list s) @ cur s #
           filter (\<lambda>t. \<not> sint (wakeup_ticks (mem s t)) \<le> sint T) (sleep_list s)"
proof -
  note n = sched_inv_cur_not_queued[OF inv]
  have i': "sched_inv s'" by (rule thread_sleep_inv[OF sl inv i])
  note f = thread_sleep_sleep[OF sl]
  let ?m2 = "(mem s)(cur s := (mem s (cur s))\<lparr>wakeup_ticks := T\<rparr>)"
  let ?lt = "\<lambda>a b. sint (wakeup_ticks (?m2 a)) < sint (wakeup_ticks (?m2 b))"
  have l: "sleep_list s' = list_insert_ordered ?lt (cur s) (sleep_list s)"
    by (simp add: f(1) sleep_pre_fields)
  then have m: "cur s \<in> set (sleep_list s')" by (simp add: set_list_insert_ordered)
  show "sleeping s' (cur s) T" by (rule sleeping_intro[OF i' m]) (simp add: f(2))
  from sched_inv_sleeper(3)[OF i' m] show "cur s' \<noteq> cur s" by simp
  from inv have "sorted_wrt (deadline_le (mem s)) (sleep_list s)"
    by (simp add: sched_inv_def queues_ok_def)
  then have so: "sorted_wrt (deadline_le (mem s)) (sleep_list s)" .
  have p: "\<forall>x\<in>set (sleep_list s). (\<not> ?lt (cur s) x) = due T (mem s) x"
    using n(2) by (auto simp: due_def)
  have tw: "takeWhile (\<lambda>x. \<not> ?lt (cur s) x) (sleep_list s)
       = takeWhile (due T (mem s)) (sleep_list s)"
    by (rule takeWhile_cong[OF refl]) (use p in auto)
  have dw: "dropWhile (\<lambda>x. \<not> ?lt (cur s) x) (sleep_list s)
       = dropWhile (due T (mem s)) (sleep_list s)"
    by (rule dropWhile_cong[OF refl]) (use p in auto)
  have "sleep_list s' = filter (due T (mem s)) (sleep_list s) @ cur s #
           filter (\<lambda>t. \<not> due T (mem s) t) (sleep_list s)"
    unfolding l list_insert_ordered_split tw dw sorted_takeWhile_due[OF so] ..
  then show "sleep_list s' =
           filter (\<lambda>t. sint (wakeup_ticks (mem s t)) \<le> sint T) (sleep_list s) @ cur s #
           filter (\<lambda>t. \<not> sint (wakeup_ticks (mem s t)) \<le> sint T) (sleep_list s)"
    by (simp add: due_def[abs_def])
qed

lemma precedes_filter:
  "precedes a b xs \<Longrightarrow> P a \<Longrightarrow> P b \<Longrightarrow> precedes a b (filter P xs)"
  by (induction xs) auto

lemma precedes_insert_ordered:
  "precedes a b xs \<Longrightarrow> e \<noteq> a \<Longrightarrow> precedes a b (list_insert_ordered lt e xs)"
  by (induction xs) (auto simp: set_list_insert_ordered)

lemma precedes_append_notin: "a \<notin> set xs \<Longrightarrow> precedes a b (xs @ ys) = precedes a b ys"
  by (induction xs) auto

lemma precedes_split: "a \<in> set xs \<Longrightarrow> precedes a b (xs @ b # ys)"
  by (induction xs) auto

lemma thread_sleep_ok:
  assumes inv: "sched_inv s" and n: "\<not> intr_context s" and i: "cur s \<noteq> idle_thread s"
    and r: "is_thread s (sched_next s)"
  shows "\<exists>s'. thread_sleep T s = Inr s'"
proof -
  from inv have c: "is_thread s (cur s)" "t_status s (cur s) = THREAD_RUNNING"
    by (simp_all add: sched_inv_def)
  then have tc: "thread_current s = Inr (cur s)" by (simp add: thread_current_Inr)
  let ?s2 = "(intr_disable s)\<lparr>mem := (mem (intr_disable s))
                  (cur s := (mem (intr_disable s) (cur s))\<lparr>wakeup_ticks := T\<rparr>)\<rparr>"
  let ?s3 = "?s2\<lparr>sleep_list :=
                 list_insert_ordered (cmp_thread_ticks ?s2) (cur s) (sleep_list ?s2)\<rparr>"
  let ?x = "intr_disable (sleep_pre T s)"
  have l: "intr_get_level ?s3 = INTR_OFF"
    using intr_get_level_disable[of s] by (simp add: intr_get_level_def)
  have k: "\<not> intr_context ?s3" using n by (simp add: intr_context_def intr_disable_def)
  have t3: "thread_current ?s3 = Inr (cur s)"
    using c by (simp add: thread_current_Inr is_thread_def t_status_def intr_disable_def)
  have e: "set_status (cur s) THREAD_BLOCKED ?s3 = ?x"
    by (simp add: set_status_def sleep_pre_def intr_disable_def Let_def cmp_thread_ticks_cpu)
  have b: "thread_block ?s3 = schedule ?x"
    using l k t3 e by (simp add: thread_block_def)
  have "\<exists>s4. schedule ?x = Inr s4"
  proof (rule schedule_ok)
    show "intr_get_level ?x = INTR_OFF" by (rule intr_get_level_disable)
    show "t_status ?x (cur ?x) \<noteq> THREAD_RUNNING"
      by (simp add: t_status_def intr_disable_def sleep_pre_fields)
    have "sched_next ?x = sched_next s"
      by (simp add: sched_next_def intr_disable_def sleep_pre_fields split: list.split)
    with r c(1) show "is_thread ?x (sched_next ?x)"
      by (auto simp: is_thread_def intr_disable_def sleep_pre_fields)
  qed
  then obtain s4 where "schedule ?x = Inr s4" ..
  with b have "thread_block ?s3 = Inr s4" by simp
  with tc show ?thesis by (simp add: thread_sleep_def Let_def)
qed

lemma exec_keeps_order:
  assumes inv: "sched_inv s" and sa: "sleeping s a T" and sb: "sleeping s b T"
    and p: "precedes a b (sleep_list s)" and al: "allowed c s" and e: "exec c s = Inr s'"
    and w: "case wake_time c s of None \<Rightarrow> True | Some now \<Rightarrow> sint now < sint T"
  shows "precedes a b (sleep_list s')"
proof -
  from sa have m: "a \<in> set (sleep_list s)" by (simp add: sleeping_def)
  note n = sched_inv_sleeper[OF inv m]
  from inv have so: "sorted_wrt (deadline_le (mem s)) (sleep_list s)"
    and v: "valid_queue (mem s) (sleep_list s) THREAD_BLOCKED"
    by (simp_all add: sched_inv_def queues_ok_def)
  have early: "sint now < sint T \<Longrightarrow>
      precedes a b (filter (\<lambda>t. \<not> due now (mem s) t) (sleep_list s))" for now
    using sa sb by (intro precedes_filter[OF p]) (simp_all add: due_def sleeping_def)
  show ?thesis
  proof (cases c)
    case (Create nm prio f aux)
    with e obtain r where t: "thread_create nm prio f aux s = Inr (r, s')"
      by (auto split: sum.splits)
    from inv have "NULL \<notin> set (free_pages s)" by (simp add: sched_inv_def queues_ok_def)
    from thread_create_Inr[OF t this] p show ?thesis by auto
  next
    case Block
    with e have "thread_block s = Inr s'" by simp
    from thread_block_sleep(1)[OF this] p show ?thesis by simp
  next
    case (Unblock u)
    with e have "thread_unblock u s = Inr s'" by simp
    from thread_unblock_Inr(3)[OF this] p show ?thesis by simp
  next
    case Yield
    with e have "thread_yield s = Inr s'" by simp
    from thread_yield_sleep(1)[OF this] p show ?thesis by simp
  next
    case Exit
    with e have "thread_exit s = Inr s'" by simp
    from thread_exit_sleep(1)[OF this] p show ?thesis by simp
  next
    case (Sleep dl)
    with e have "thread_sleep dl s = Inr s'" by simp
    from thread_sleep_sleep(1)[OF this] p n(3) show ?thesis
      by (simp add: sleep_pre_fields precedes_insert_ordered)
  next
    case (Timer_sleep tk)
    with e have "thread_sleep (ticks s + tk) s = Inr s'"
      by (simp add: timer_sleep_eq split: if_splits)
    from thread_sleep_sleep(1)[OF this] p n(3) show ?thesis
      by (simp add: sleep_pre_fields precedes_insert_ordered)
  next
    case Tick
    with e obtain u where u: "thread_current s = Inr u"
      by (auto simp: thread_tick_def split: sum.splits)
    from e Tick thread_tick_Inr[OF u] p show ?thesis by (auto split: if_splits)
  next
    case (Wakeup now)
    with e thread_wakeup_result[OF v, of now] have "s' = after_wakeup now s" by simp
    with w Wakeup early[of now] show ?thesis by (simp add: after_wakeup_fields[OF so])
  next
    case Timer_interrupt
    with e have "timer_interrupt s = Inr s'" by simp
    from timer_interrupt_Inr[OF this] obtain sm where
      x: "thread_tick (s\<lparr>ticks := ticks s + 1\<rparr>) = Inr sm"
      and y: "thread_wakeup (ticks s + 1) sm = Inr s'" by blast
    from x obtain u where u: "thread_current (s\<lparr>ticks := ticks s + 1\<rparr>) = Inr u"
      by (auto simp: thread_tick_def split: sum.splits)
    from x thread_tick_Inr[OF u] have k: "sleep_list sm = sleep_list s" "mem sm = mem s"
      by (auto split: if_splits)
    from y thread_wakeup_result[of sm "ticks s + 1"] v k
    have "s' = after_wakeup (ticks s + 1) sm" by simp
    moreover from w Timer_interrupt have "sint (ticks s + 1) < sint T" by simp
    ultimately show ?thesis using early[of "ticks s + 1"] so k
      by (simp add: after_wakeup_fields)
  next
    case Idle_register
    with e p show ?thesis by (auto simp: idle_register_def split: sum.splits)
  next
    case (Set_level l)
    with e p show ?thesis
      by (auto simp: intr_set_level_def intr_enable_def intr_disable_def)
  next
    case (Set_context b)
    with e p show ?thesis by auto
  qed
qed

lemma run_keeps_order:
  assumes "sched_inv s" and "sleeping s a T" and "sleeping s b T"
    and "precedes a b (sleep_list s)" and "run calls s = Inr s'" and "early T calls s"
  shows "precedes a b (sleep_list s')"
  using assms
proof (induction calls arbitrary: s)
  case Nil
  then show ?case by simp
next
  case (Cons c calls)
  from Cons.prems(5) obtain sm where al: "allowed c s" and e: "exec c s = Inr sm"
    and r: "run calls sm = Inr s'"
    by (auto split: if_splits sum.splits)
  from Cons.prems(6) e
  have w: "case wake_time c s of None \<Rightarrow> True | Some now \<Rightarrow> sint now < sint T"
    and er: "early T calls sm" by simp_all
  from Cons.IH[OF exec_inv[OF e al Cons.prems(1)]
      exec_keeps_sleeper[OF Cons.prems(1,2) al e w]
      exec_keeps_sleeper[OF Cons.prems(1,3) al e w]
      exec_keeps_order[OF Cons.prems(1,2,3,4) al e w] r er]
  show ?case .
qed

lemma thread_wakeup_order:
  assumes inv: "sched_inv s" and sa: "sleeping s a T" and sb: "sleeping s b T"
    and p: "precedes a b (sleep_list s)" and e: "sint T \<le> sint now"
  shows "precedes a b (ready_list (after_wakeup now s))"
proof -
  from inv have so: "sorted_wrt (deadline_le (mem s)) (sleep_list s)"
    by (simp add: sched_inv_def queues_ok_def)
  from sa have m: "a \<in> set (sleep_list s)" by (simp add: sleeping_def)
  have "precedes a b (filter (due now (mem s)) (sleep_list s))"
    using sa sb e by (intro precedes_filter[OF p]) (simp_all add: due_def sleeping_def)
  then show ?thesis
    using sched_inv_sleeper(4)[OF inv m]
    by (simp add: after_wakeup_fields[OF so] precedes_append_notin)
qed

lemma thread_wakeup_again:
  assumes inv: "sched_inv s" and t: "t \<notin> set (sleep_list s)"
    and w: "thread_wakeup now s = Inr s'"
  shows "count_list (ready_list s') t = count_list (ready_list s) t"
    and "t_status s' t = t_status s t"
proof -
  from inv have so: "sorted_wrt (deadline_le (mem s)) (sleep_list s)"
    and v: "valid_queue (mem s) (sleep_list s) THREAD_BLOCKED"
    by (simp_all add: sched_inv_def queues_ok_def)
  from w thread_wakeup_result[OF v, of now] have s': "s' = after_wakeup now s" by simp
  from t show "count_list (ready_list s') t = count_list (ready_list s) t"
    by (simp add: s' after_wakeup_fields[OF so] count_list_append count_list_notin)
  from t show "t_status s' t = t_status s t"
    by (simp add: s' after_wakeup_fields[OF so])
qed

lemma sched_inv_ex_asleep: "sched_inv ex_asleep"
  by (simp add: sched_inv_def queues_ok_def valid_queue_def ex_asleep_def intr_enable_def
        ex_defs)

lemma ex_asleep_fields:
  "cur ex_asleep = 0x3000" "idle_thread ex_asleep = 0x2000" "ready_list ex_asleep = []"
  "sleep_list ex_asleep = [0x1000]" "\<not> intr_context ex_asleep" "ticks ex_asleep = 10"
  "wakeup_ticks (mem ex_asleep 0x1000) = 60" "t_status ex_asleep 0x1000 = THREAD_BLOCKED"
  "is_thread ex_asleep 0x2000" "intr_get_level ex_asleep = INTR_ON"
proof -
  have "intr_get_level ex_asleep = intr_get_level (intr_enable ex_state)"
    by (rule intr_get_level_cong) (simp add: ex_asleep_def)
  then show "intr_get_level ex_asleep = INTR_ON" by (simp add: intr_get_level_enable)
qed (simp_all add: ex_asleep_def intr_enable_def intr_context_def ex_defs)

lemma thread_sleep_enqueues:
  assumes inv: "sched_inv s" and i: "cur s \<noteq> idle_thread s"
    and sl: "thread_sleep T s = Inr sa"
  shows "sleeping sa (cur s) T \<and> cur sa \<noteq> cur s \<and> cur s \<notin> set (ready_list sa)
     \<and> sleep_list sa =
           filter (\<lambda>t. sint (wakeup_ticks (mem s t)) \<le> sint T) (sleep_list s) @ cur s #
           filter (\<lambda>t. \<not> sint (wakeup_ticks (mem s t)) \<le> sint T) (sleep_list s)
     \<and> (sleeping s a T \<longrightarrow> sleeping sa a T \<and> precedes a (cur s) (sleep_list sa))"
proof -
  note r = thread_sleep_result[OF inv i sl]
  have ia: "sched_inv sa" by (rule thread_sleep_inv[OF sl inv i])
  from r(1) have m: "cur s \<in> set (sleep_list sa)" by (simp add: sleeping_def)
  have k: "sleeping sa a T \<and> precedes a (cur s) (sleep_list sa)" if a: "sleeping s a T"
  proof
    from i have al: "allowed (Sleep T) s" by simp
    from sl have e: "exec (Sleep T) s = Inr sa" by simp
    show "sleeping sa a T" by (rule exec_keeps_sleeper[OF inv a al e]) simp
    from a have "a \<in> set (filter (\<lambda>t. sint (wakeup_ticks (mem s t)) \<le> sint T) (sleep_list s))"
      by (simp add: sleeping_def)
    then show "precedes a (cur s) (sleep_list sa)"
      unfolding r(3) by (rule precedes_split)
  qed
  from r sched_inv_sleeper(4)[OF ia m] k show ?thesis by blast
qed

lemma sleeper_stays_blocked:
  assumes inv: "sched_inv s" and i: "cur s \<noteq> idle_thread s"
    and sl: "thread_sleep T s = Inr sa"
    and r: "run calls sa = Inr sb" and e: "early T calls sa"
  shows "sched_inv sb \<and> sleeping sb (cur s) T \<and> cur s \<notin> set (ready_list sb)
     \<and> cur sb \<noteq> cur s
     \<and> (sleeping s a T \<longrightarrow> sleeping sb a T \<and> precedes a (cur s) (sleep_list sb))"
proof -
  note q = thread_sleep_enqueues[OF inv i sl, of a]
  have ia: "sched_inv sa" by (rule thread_sleep_inv[OF sl inv i])
  have ib: "sched_inv sb" by (rule run_inv[OF r ia])
  from q have c: "sleeping sa (cur s) T" by blast
  have b: "sleeping sb (cur s) T" by (rule run_keeps_sleeper[OF ia c r e])
  then have m: "cur s \<in> set (sleep_list sb)" by (simp add: sleeping_def)
  have "sleeping sb a T \<and> precedes a (cur s) (sleep_list sb)" if a: "sleeping s a T"
  proof
    from q a have x: "sleeping sa a T" and p: "precedes a (cur s) (sleep_list sa)" by blast+
    show "sleeping sb a T" by (rule run_keeps_sleeper[OF ia x r e])
    show "precedes a (cur s) (sleep_list sb)" by (rule run_keeps_order[OF ia x c p r e])
  qed
  with ib b sched_inv_sleeper(3,4)[OF ib m] show ?thesis by auto
qed

lemma sleeper_woken:
  assumes inv: "sched_inv sb" and b: "sleeping sb t T" and e: "sint T \<le> sint now"
  shows "\<exists>sc. thread_wakeup now sb = Inr sc
           \<and> t_status sc t = THREAD_READY
           \<and> t \<notin> set (sleep_list sc)
           \<and> ready_list sc = ready_list sb @ filter (due now (mem sb)) (sleep_list sb)
           \<and> t \<in> set (filter (due now (mem sb)) (sleep_list sb))
           \<and> count_list (ready_list sc) t = 1
           \<and> cur sc = cur sb
           \<and> (sleeping sb a T \<and> precedes a t (sleep_list sb) \<longrightarrow>
                 precedes a t (ready_list sc))
           \<and> (\<forall>later. \<exists>sd. thread_wakeup later sc = Inr sd
                 \<and> count_list (ready_list sd) t = 1
                 \<and> t_status sd t = THREAD_READY)"
proof -
  let ?sc = "after_wakeup now sb"
  note w = thread_wakeup_wakes[OF inv b e]
  have ic: "sched_inv ?sc" by (rule thread_wakeup_inv[OF w(1) inv])
  then have v: "valid_queue (mem ?sc) (sleep_list ?sc) THREAD_BLOCKED"
    by (simp add: sched_inv_def queues_ok_def)
  from b e have d: "t \<in> set (filter (due now (mem sb)) (sleep_list sb))"
    by (simp add: sleeping_def due_def)
  have o: "precedes a t (ready_list ?sc)"
    if "sleeping sb a T \<and> precedes a t (sleep_list sb)"
    using thread_wakeup_order[OF inv _ b _ e, of a] that by simp
  have l: "\<exists>sd. thread_wakeup later ?sc = Inr sd \<and> count_list (ready_list sd) t = 1
             \<and> t_status sd t = THREAD_READY" for later
  proof -
    have x: "thread_wakeup later ?sc = Inr (after_wakeup later ?sc)"
      by (rule thread_wakeup_result[OF v])
    from thread_wakeup_again[OF ic w(2) x] w(3,4) x show ?thesis by simp
  qed
  from w d o l show ?thesis by blast
qed

text \<open>Claim C1: \<^verbatim>\<open>timer_sleep\<close> asserts that interrupts are on and calls \<^verbatim>\<open>thread_sleep\<close> with the deadline \<open>T = ticks + tk\<close>; \<^verbatim>\<open>timer_interrupt\<close> advances the tick count, runs \<^verbatim>\<open>thread_tick\<close> and calls \<^verbatim>\<open>thread_wakeup\<close> with the new count. With \<^verbatim>\<open>thread_sleep\<close> and \<^verbatim>\<open>thread_wakeup\<close> as section 4.3 of the specification describes them: a thread other than the idle thread that goes to sleep until \<open>T\<close> in a well-formed state is blocked in the sleep queue, behind every sleeper whose deadline is at most \<open>T\<close>, and another thread runs. Through every run of scheduler calls in which each wakeup call is made with a tick value before \<open>T\<close>, it stays blocked in the sleep queue, outside the ready queue, and behind the threads that went to sleep until \<open>T\<close> before it. A wakeup call made after such a run with a tick value of at least \<open>T\<close> returns, leaves the running thread in place, gives the sleeper the status \<^verbatim>\<open>THREAD_READY\<close>, removes it from the sleep queue and appends the due sleepers to the tail of the ready queue in the order of the sleep queue: the thread is there once, behind the threads that went to sleep until \<open>T\<close> before it; and a further wakeup call, whatever its tick value, does not add it again.\<close>

theorem sleep_until_deadline:
  "(timer_sleep tk s =
      (if intr_get_level s \<noteq> INTR_ON
       then Inl (ASSERT_failed ''intr_get_level () == INTR_ON'')
       else thread_sleep (ticks s + tk) s))
   \<and> (timer_interrupt s = Inr si \<longrightarrow>
        (\<exists>sm. thread_tick (s\<lparr>ticks := ticks s + 1\<rparr>) = Inr sm
            \<and> thread_wakeup (ticks s + 1) sm = Inr si))
   \<and> (sched_inv s \<and> cur s \<noteq> idle_thread s \<and> thread_sleep T s = Inr sa \<longrightarrow>
        sleeping sa (cur s) T \<and> cur sa \<noteq> cur s \<and> cur s \<notin> set (ready_list sa)
        \<and> sleep_list sa =
             filter (\<lambda>t. sint (wakeup_ticks (mem s t)) \<le> sint T) (sleep_list s) @ cur s #
             filter (\<lambda>t. \<not> sint (wakeup_ticks (mem s t)) \<le> sint T) (sleep_list s)
        \<and> (sleeping s a T \<longrightarrow> sleeping sa a T \<and> precedes a (cur s) (sleep_list sa))
        \<and> (run calls sa = Inr sb \<and> early T calls sa \<longrightarrow>
             sleeping sb (cur s) T \<and> cur s \<notin> set (ready_list sb) \<and> cur sb \<noteq> cur s
             \<and> (sleeping s a T \<longrightarrow> sleeping sb a T \<and> precedes a (cur s) (sleep_list sb))
             \<and> (sint T \<le> sint now \<longrightarrow>
                  (\<exists>sc. thread_wakeup now sb = Inr sc
                     \<and> t_status sc (cur s) = THREAD_READY
                     \<and> cur s \<notin> set (sleep_list sc)
                     \<and> ready_list sc =
                          ready_list sb @ filter (due now (mem sb)) (sleep_list sb)
                     \<and> cur s \<in> set (filter (due now (mem sb)) (sleep_list sb))
                     \<and> count_list (ready_list sc) (cur s) = 1
                     \<and> cur sc = cur sb
                     \<and> (sleeping s a T \<longrightarrow> precedes a (cur s) (ready_list sc))
                     \<and> (\<forall>later. \<exists>sd. thread_wakeup later sc = Inr sd
                           \<and> count_list (ready_list sd) (cur s) = 1
                           \<and> t_status sd (cur s) = THREAD_READY)))))"
proof (intro conjI)
  show "timer_sleep tk s =
      (if intr_get_level s \<noteq> INTR_ON
       then Inl (ASSERT_failed ''intr_get_level () == INTR_ON'')
       else thread_sleep (ticks s + tk) s)"
    by (rule timer_sleep_eq)
  show "timer_interrupt s = Inr si \<longrightarrow>
        (\<exists>sm. thread_tick (s\<lparr>ticks := ticks s + 1\<rparr>) = Inr sm
            \<and> thread_wakeup (ticks s + 1) sm = Inr si)"
    using timer_interrupt_Inr[of s si] by blast
  show "sched_inv s \<and> cur s \<noteq> idle_thread s \<and> thread_sleep T s = Inr sa \<longrightarrow>
        sleeping sa (cur s) T \<and> cur sa \<noteq> cur s \<and> cur s \<notin> set (ready_list sa)
        \<and> sleep_list sa =
             filter (\<lambda>t. sint (wakeup_ticks (mem s t)) \<le> sint T) (sleep_list s) @ cur s #
             filter (\<lambda>t. \<not> sint (wakeup_ticks (mem s t)) \<le> sint T) (sleep_list s)
        \<and> (sleeping s a T \<longrightarrow> sleeping sa a T \<and> precedes a (cur s) (sleep_list sa))
        \<and> (run calls sa = Inr sb \<and> early T calls sa \<longrightarrow>
             sleeping sb (cur s) T \<and> cur s \<notin> set (ready_list sb) \<and> cur sb \<noteq> cur s
             \<and> (sleeping s a T \<longrightarrow> sleeping sb a T \<and> precedes a (cur s) (sleep_list sb))
             \<and> (sint T \<le> sint now \<longrightarrow>
                  (\<exists>sc. thread_wakeup now sb = Inr sc
                     \<and> t_status sc (cur s) = THREAD_READY
                     \<and> cur s \<notin> set (sleep_list sc)
                     \<and> ready_list sc =
                          ready_list sb @ filter (due now (mem sb)) (sleep_list sb)
                     \<and> cur s \<in> set (filter (due now (mem sb)) (sleep_list sb))
                     \<and> count_list (ready_list sc) (cur s) = 1
                     \<and> cur sc = cur sb
                     \<and> (sleeping s a T \<longrightarrow> precedes a (cur s) (ready_list sc))
                     \<and> (\<forall>later. \<exists>sd. thread_wakeup later sc = Inr sd
                           \<and> count_list (ready_list sd) (cur s) = 1
                           \<and> t_status sd (cur s) = THREAD_READY))))"
  proof (intro impI)
    assume h: "sched_inv s \<and> cur s \<noteq> idle_thread s \<and> thread_sleep T s = Inr sa"
    then have inv: "sched_inv s" and i: "cur s \<noteq> idle_thread s"
      and sl: "thread_sleep T s = Inr sa" by simp_all
    note p = thread_sleep_enqueues[OF inv i sl, of a]
    have q: "sleeping sb (cur s) T \<and> cur s \<notin> set (ready_list sb) \<and> cur sb \<noteq> cur s
             \<and> (sleeping s a T \<longrightarrow> sleeping sb a T \<and> precedes a (cur s) (sleep_list sb))
             \<and> (sint T \<le> sint now \<longrightarrow>
                  (\<exists>sc. thread_wakeup now sb = Inr sc
                     \<and> t_status sc (cur s) = THREAD_READY
                     \<and> cur s \<notin> set (sleep_list sc)
                     \<and> ready_list sc =
                          ready_list sb @ filter (due now (mem sb)) (sleep_list sb)
                     \<and> cur s \<in> set (filter (due now (mem sb)) (sleep_list sb))
                     \<and> count_list (ready_list sc) (cur s) = 1
                     \<and> cur sc = cur sb
                     \<and> (sleeping s a T \<longrightarrow> precedes a (cur s) (ready_list sc))
                     \<and> (\<forall>later. \<exists>sd. thread_wakeup later sc = Inr sd
                           \<and> count_list (ready_list sd) (cur s) = 1
                           \<and> t_status sd (cur s) = THREAD_READY)))"
      if r: "run calls sa = Inr sb \<and> early T calls sa"
    proof -
      from r have r1: "run calls sa = Inr sb" and r2: "early T calls sa" by simp_all
      note k = sleeper_stays_blocked[OF inv i sl r1 r2, of a]
      from k have ib: "sched_inv sb" and b: "sleeping sb (cur s) T" by simp_all
      have "\<exists>sc. thread_wakeup now sb = Inr sc
                     \<and> t_status sc (cur s) = THREAD_READY
                     \<and> cur s \<notin> set (sleep_list sc)
                     \<and> ready_list sc =
                          ready_list sb @ filter (due now (mem sb)) (sleep_list sb)
                     \<and> cur s \<in> set (filter (due now (mem sb)) (sleep_list sb))
                     \<and> count_list (ready_list sc) (cur s) = 1
                     \<and> cur sc = cur sb
                     \<and> (sleeping s a T \<longrightarrow> precedes a (cur s) (ready_list sc))
                     \<and> (\<forall>later. \<exists>sd. thread_wakeup later sc = Inr sd
                           \<and> count_list (ready_list sd) (cur s) = 1
                           \<and> t_status sd (cur s) = THREAD_READY)"
        if e: "sint T \<le> sint now"
      proof -
        from sleeper_woken[OF ib b e, of a] obtain sc where
          x: "thread_wakeup now sb = Inr sc"
            "t_status sc (cur s) = THREAD_READY"
            "cur s \<notin> set (sleep_list sc)"
            "ready_list sc = ready_list sb @ filter (due now (mem sb)) (sleep_list sb)"
            "cur s \<in> set (filter (due now (mem sb)) (sleep_list sb))"
            "count_list (ready_list sc) (cur s) = 1"
            "cur sc = cur sb"
          and y: "sleeping sb a T \<and> precedes a (cur s) (sleep_list sb) \<longrightarrow>
                 precedes a (cur s) (ready_list sc)"
          and z: "\<forall>later. \<exists>sd. thread_wakeup later sc = Inr sd
                 \<and> count_list (ready_list sd) (cur s) = 1
                 \<and> t_status sd (cur s) = THREAD_READY"
          by blast
        from k y have "sleeping s a T \<longrightarrow> precedes a (cur s) (ready_list sc)" by simp
        with x z show ?thesis by blast
      qed
      with k show ?thesis by simp
    qed
    from p q show "sleeping sa (cur s) T \<and> cur sa \<noteq> cur s \<and> cur s \<notin> set (ready_list sa)
        \<and> sleep_list sa =
             filter (\<lambda>t. sint (wakeup_ticks (mem s t)) \<le> sint T) (sleep_list s) @ cur s #
             filter (\<lambda>t. \<not> sint (wakeup_ticks (mem s t)) \<le> sint T) (sleep_list s)
        \<and> (sleeping s a T \<longrightarrow> sleeping sa a T \<and> precedes a (cur s) (sleep_list sa))
        \<and> (run calls sa = Inr sb \<and> early T calls sa \<longrightarrow>
             sleeping sb (cur s) T \<and> cur s \<notin> set (ready_list sb) \<and> cur sb \<noteq> cur s
             \<and> (sleeping s a T \<longrightarrow> sleeping sb a T \<and> precedes a (cur s) (sleep_list sb))
             \<and> (sint T \<le> sint now \<longrightarrow>
                  (\<exists>sc. thread_wakeup now sb = Inr sc
                     \<and> t_status sc (cur s) = THREAD_READY
                     \<and> cur s \<notin> set (sleep_list sc)
                     \<and> ready_list sc =
                          ready_list sb @ filter (due now (mem sb)) (sleep_list sb)
                     \<and> cur s \<in> set (filter (due now (mem sb)) (sleep_list sb))
                     \<and> count_list (ready_list sc) (cur s) = 1
                     \<and> cur sc = cur sb
                     \<and> (sleeping s a T \<longrightarrow> precedes a (cur s) (ready_list sc))
                     \<and> (\<forall>later. \<exists>sd. thread_wakeup later sc = Inr sd
                           \<and> count_list (ready_list sd) (cur s) = 1
                           \<and> t_status sd (cur s) = THREAD_READY))))"
      by blast
  qed
qed

theorem sleep_until_deadline_witness:
  "sched_inv ex_asleep \<and> cur ex_asleep = 0x3000 \<and> cur ex_asleep \<noteq> idle_thread ex_asleep
   \<and> intr_get_level ex_asleep = INTR_ON \<and> ticks ex_asleep = 10
   \<and> sleeping ex_asleep 0x1000 60
   \<and> (\<exists>sa sb sc sd.
        timer_sleep 50 ex_asleep = Inr sa \<and> thread_sleep 60 ex_asleep = Inr sa
        \<and> sleep_list sa = [0x1000, 0x3000]
        \<and> run [Wakeup 59] sa = Inr sb \<and> early 60 [Wakeup 59] sa
        \<and> sleeping sb 0x1000 60 \<and> sleeping sb 0x3000 60 \<and> ready_list sb = []
        \<and> thread_wakeup 60 sb = Inr sc
        \<and> ready_list sc = [0x1000, 0x3000]
        \<and> t_status sc 0x3000 = THREAD_READY \<and> 0x3000 \<notin> set (sleep_list sc)
        \<and> precedes 0x1000 0x3000 (ready_list sc)
        \<and> thread_wakeup 61 sc = Inr sd \<and> count_list (ready_list sd) 0x3000 = 1)"
proof -
  let ?s = ex_asleep
  note f = ex_asleep_fields
  have inv: "sched_inv ?s" by (rule sched_inv_ex_asleep)
  have i: "cur ?s \<noteq> idle_thread ?s" by (simp add: f)
  have a: "sleeping ?s 0x1000 60" by (simp add: sleeping_def f)
  have nx: "is_thread ?s (sched_next ?s)" by (simp add: sched_next_def f)
  from thread_sleep_ok[OF inv f(5) i nx, of 60] obtain sa where
    sl: "thread_sleep 60 ?s = Inr sa" ..
  have ia: "sched_inv sa" by (rule thread_sleep_inv[OF sl inv i])
  then have v: "valid_queue (mem sa) (sleep_list sa) THREAD_BLOCKED"
    and so: "sorted_wrt (deadline_le (mem sa)) (sleep_list sa)"
    by (simp_all add: sched_inv_def queues_ok_def)
  define sb where "sb = after_wakeup 59 sa"
  have w: "thread_wakeup 59 sa = Inr sb"
    unfolding sb_def by (rule thread_wakeup_result[OF v])
  then have r: "run [Wakeup 59] sa = Inr sb" by simp
  have e: "early 60 [Wakeup 59] sa" using w by simp
  have n: "sint (60 :: 64 word) \<le> sint (60 :: 64 word)" by simp
  note t = sleep_until_deadline[where s = ?s and tk = 50 and T = 60 and sa = sa
      and a = "0x1000" and calls = "[Wakeup 59]" and sb = sb and now = 60]
  from t f(6,10) sl have ts: "timer_sleep 50 ?s = Inr sa" by simp
  from t inv i sl a have p1: "sleeping sa 0x3000 60" "sleeping sa 0x1000 60"
    and q1: "sleep_list sa =
             filter (\<lambda>t. sint (wakeup_ticks (mem ?s t)) \<le> sint (60 :: 64 word)) (sleep_list ?s)
             @ cur ?s #
             filter (\<lambda>t. \<not> sint (wakeup_ticks (mem ?s t)) \<le> sint (60 :: 64 word))
               (sleep_list ?s)"
    unfolding f(1) by blast+
  from q1 have q: "sleep_list sa = [0x1000, 0x3000]" by (simp add: f)
  from thread_sleep_sleep(4)[OF sl] have ra: "ready_list sa = []" by (simp add: f)
  from p1 have d: "wakeup_ticks (mem sa 0x1000) = 60" "wakeup_ticks (mem sa 0x3000) = 60"
    by (simp_all add: sleeping_def)
  have rb: "ready_list sb = []" and qb: "sleep_list sb = [0x1000, 0x3000]"
    by (simp_all add: sb_def after_wakeup_fields[OF so] q ra due_def d)
  from t inv i sl a r e have p2: "sleeping sb 0x3000 60" "sleeping sb 0x1000 60"
    unfolding f(1) by blast+
  then have db: "wakeup_ticks (mem sb 0x1000) = 60" "wakeup_ticks (mem sb 0x3000) = 60"
    by (simp_all add: sleeping_def)
  from t inv i sl a r e n obtain sc where
    c: "thread_wakeup 60 sb = Inr sc" "t_status sc 0x3000 = THREAD_READY"
      "0x3000 \<notin> set (sleep_list sc)"
      "ready_list sc = ready_list sb @ filter (due 60 (mem sb)) (sleep_list sb)"
      "precedes 0x1000 0x3000 (ready_list sc)"
    and l: "\<forall>later. \<exists>sd. thread_wakeup later sc = Inr sd
                           \<and> count_list (ready_list sd) 0x3000 = 1
                           \<and> t_status sd 0x3000 = THREAD_READY"
    unfolding f(1) by blast
  from c(4) have rc: "ready_list sc = [0x1000, 0x3000]"
    by (simp add: rb qb due_def db)
  from l obtain sd where sd: "thread_wakeup 61 sc = Inr sd"
    "count_list (ready_list sd) 0x3000 = 1" by blast
  from inv f(1,6,10) i a ts sl q r e p2 rb c rc sd show ?thesis by blast
qed

subsection \<open>The saved context of a waiting thread\<close>

lemma schedule_frame:
  assumes sch: "schedule x = Inr s'" and ne: "p \<noteq> cur x" and r: "p \<in> set (ready_list x)"
  shows "hands_over p x s'"
proof -
  from r obtain t ts where l: "ready_list x = t # ts" by (cases "ready_list x") auto
  then have n: "sched_next x = t" by (simp add: sched_next_def)
  show ?thesis
    unfolding hands_over_def schedule_result[OF sch]
    using ne r l n by (auto simp: t_status_def)
qed

lemma hands_over_pre:
  assumes "hands_over p x s'" and "tf (mem x p) = tf (mem s p)"
  shows "hands_over p s s'"
  using assms by (simp add: hands_over_def)

lemma hands_over_post:
  assumes "hands_over p s x" and "cur s' = cur x" and "cur x \<noteq> p"
    and "tf (mem s' p) = tf (mem x p)" and "set (ready_list x) \<subseteq> set (ready_list s')"
  shows "hands_over p s s'"
  using assms by (auto simp: hands_over_def)

lemma hands_over_stay:
  assumes "cur s' \<noteq> p" and "tf (mem s' p) = tf (mem s p)" and "p \<in> set (ready_list s')"
  shows "hands_over p s s'"
  using assms by (simp add: hands_over_def)

lemma do_schedule_frame:
  assumes d: "do_schedule st y = Inr s'" and ne: "p \<noteq> cur y"
    and r: "p \<in> set (ready_list y)"
  shows "hands_over p y s'"
proof -
  let ?x = "set_status (cur y) st (drained y)"
  have "hands_over p ?x s'"
    by (rule schedule_frame[OF do_schedule_Inr(4)[OF d]])
       (use ne r in \<open>simp_all add: set_status_def drained_def\<close>)
  then show ?thesis
    by (rule hands_over_pre) (use ne in \<open>simp add: set_status_def drained_def\<close>)
qed

lemma thread_block_frame:
  assumes b: "thread_block s = Inr s'" and ne: "p \<noteq> cur s" and r: "p \<in> set (ready_list s)"
  shows "hands_over p s s'"
proof -
  have "hands_over p (set_status (cur s) THREAD_BLOCKED s) s'"
    by (rule schedule_frame[OF thread_block_Inr(5)[OF b]])
       (use ne r in \<open>simp_all add: set_status_def\<close>)
  then show ?thesis by (rule hands_over_pre) (use ne in \<open>simp add: set_status_def\<close>)
qed

lemma thread_exit_frame:
  assumes e: "thread_exit s = Inr s'" and ne: "p \<noteq> cur s" and r: "p \<in> set (ready_list s)"
  shows "hands_over p s s'"
proof -
  have "hands_over p (intr_disable s) s'"
    by (rule do_schedule_frame[OF thread_exit_Inr(2)[OF e]])
       (use ne r in \<open>simp_all add: intr_disable_def\<close>)
  then show ?thesis by (rule hands_over_pre) (simp add: intr_disable_def)
qed

lemma thread_yield_frame:
  assumes y: "thread_yield s = Inr s'" and ne: "p \<noteq> cur s" and r: "p \<in> set (ready_list s)"
  shows "hands_over p s s'"
proof -
  let ?y = "(intr_disable s)\<lparr>ready_list :=
                (if cur s \<noteq> idle_thread s then ready_list s @ [cur s] else ready_list s)\<rparr>"
  from thread_yield_Inr(4)[OF y] obtain s3 where
    d: "do_schedule THREAD_READY ?y = Inr s3"
    and s': "s' = (if cur s3 = cur s then intr_set_level (intr_get_level s) s3 else s3)"
    by blast
  have "hands_over p ?y s3"
    by (rule do_schedule_frame[OF d]) (use ne r in \<open>simp_all add: intr_disable_def\<close>)
  then have h: "hands_over p s s3" by (rule hands_over_pre) (simp add: intr_disable_def)
  show ?thesis
  proof (cases "cur s3 = cur s")
    case True
    with ne have c: "cur s3 \<noteq> p" by simp
    from True have e: "s' = intr_set_level (intr_get_level s) s3" by (simp add: s')
    show ?thesis
      by (rule hands_over_post[OF h _ c])
         (simp_all add: e intr_set_level_def intr_enable_def intr_disable_def)
  next
    case False
    with h s' show ?thesis by simp
  qed
qed

lemma thread_sleep_frame:
  assumes sl: "thread_sleep T s = Inr s'" and ne: "p \<noteq> cur s"
    and r: "p \<in> set (ready_list s)"
  shows "hands_over p s s'"
proof -
  let ?x = "intr_disable (sleep_pre T s)"
  from thread_sleep_Inr(4)[OF sl] obtain s4 where
    sch: "schedule ?x = Inr s4"
    and s': "s' = (if cur s4 = cur s then intr_set_level (intr_get_level s) s4 else s4)"
    by blast
  have "hands_over p ?x s4"
    by (rule schedule_frame[OF sch]) (use ne r in \<open>simp_all add: intr_disable_def sleep_pre_fields\<close>)
  then have h: "hands_over p s s4"
    by (rule hands_over_pre) (use ne in \<open>simp add: intr_disable_def sleep_pre_fields\<close>)
  show ?thesis
  proof (cases "cur s4 = cur s")
    case True
    with ne have c: "cur s4 \<noteq> p" by simp
    from True have e: "s' = intr_set_level (intr_get_level s) s4" by (simp add: s')
    show ?thesis
      by (rule hands_over_post[OF h _ c])
         (simp_all add: e intr_set_level_def intr_enable_def intr_disable_def)
  next
    case False
    with h s' show ?thesis by simp
  qed
qed

lemma thread_wakeup_frame:
  assumes inv: "sched_inv s" and w: "thread_wakeup now s = Inr s'"
    and ne: "p \<noteq> cur s" and r: "p \<in> set (ready_list s)"
  shows "hands_over p s s'"
proof -
  from inv have v: "valid_queue (mem s) (sleep_list s) THREAD_BLOCKED"
    by (simp add: sched_inv_def queues_ok_def)
  from w thread_wakeup_result[OF v, of now] have s': "s' = after_wakeup now s" by simp
  show ?thesis
    by (rule hands_over_stay) (use ne r in \<open>simp_all add: s' after_wakeup_def\<close>)
qed

lemma exec_frame:
  assumes inv: "sched_inv s" and al: "allowed c s" and e: "exec c s = Inr s'"
    and r: "p \<in> set (ready_list s)"
  shows "hands_over p s s'"
proof -
  from sched_inv_cur_not_queued(1)[OF inv] r have ne: "p \<noteq> cur s" by auto
  show ?thesis
  proof (cases c)
    case (Create nm prio f aux)
    with e obtain k where t: "thread_create nm prio f aux s = Inr (k, s')"
      by (auto split: sum.splits)
    from inv have n: "NULL \<notin> set (free_pages s)"
      and d: "set (free_pages s) \<inter> set (ready_list s) = {}"
      by (simp_all add: sched_inv_def queues_ok_def)
    from thread_create_Inr[OF t n] r d ne show ?thesis
      by (intro hands_over_stay) auto
  next
    case Block
    with e have "thread_block s = Inr s'" by simp
    then show ?thesis using ne r by (rule thread_block_frame)
  next
    case (Unblock u)
    with e have "thread_unblock u s = Inr s'" by simp
    from thread_unblock_Inr(3)[OF this] ne r show ?thesis
      by (intro hands_over_stay) simp_all
  next
    case Yield
    with e have "thread_yield s = Inr s'" by simp
    then show ?thesis using ne r by (rule thread_yield_frame)
  next
    case Exit
    with e have "thread_exit s = Inr s'" by simp
    then show ?thesis using ne r by (rule thread_exit_frame)
  next
    case (Sleep dl)
    with e have "thread_sleep dl s = Inr s'" by simp
    then show ?thesis using ne r by (rule thread_sleep_frame)
  next
    case (Timer_sleep tk)
    with e have "thread_sleep (ticks s + tk) s = Inr s'"
      by (simp add: timer_sleep_eq split: if_splits)
    then show ?thesis using ne r by (rule thread_sleep_frame)
  next
    case Tick
    with e obtain u where u: "thread_current s = Inr u"
      by (auto simp: thread_tick_def split: sum.splits)
    from e Tick thread_tick_Inr[OF u] ne r show ?thesis
      by (intro hands_over_stay) (auto split: if_splits)
  next
    case (Wakeup now)
    with e have "thread_wakeup now s = Inr s'" by simp
    from thread_wakeup_frame[OF inv this ne r] show ?thesis .
  next
    case Timer_interrupt
    with e have "timer_interrupt s = Inr s'" by simp
    from timer_interrupt_Inr[OF this] obtain sm where
      x: "thread_tick (s\<lparr>ticks := ticks s + 1\<rparr>) = Inr sm"
      and y: "thread_wakeup (ticks s + 1) sm = Inr s'" by blast
    from inv have i1: "sched_inv (s\<lparr>ticks := ticks s + 1\<rparr>)"
      by (simp add: sched_inv_def queues_ok_def is_thread_def t_status_def)
    from x obtain u where u: "thread_current (s\<lparr>ticks := ticks s + 1\<rparr>) = Inr u"
      by (auto simp: thread_tick_def split: sum.splits)
    from x thread_tick_Inr[OF u] have k: "ready_list sm = ready_list s" "mem sm = mem s"
      "cur sm = cur s"
      by (auto split: if_splits)
    have im: "sched_inv sm" by (rule thread_tick_inv[OF x i1])
    have "hands_over p sm s'"
      by (rule thread_wakeup_frame[OF im y]) (use ne r k in simp_all)
    then show ?thesis by (rule hands_over_pre) (simp add: k)
  next
    case Idle_register
    with e ne r show ?thesis
      by (intro hands_over_stay) (auto simp: idle_register_def split: sum.splits)
  next
    case (Set_level l)
    with e have s': "s' = intr_set_level l s" by simp
    have k: "cur s' = cur s" "mem s' = mem s" "ready_list s' = ready_list s"
      by (simp_all add: s' intr_set_level_def intr_enable_def intr_disable_def)
    show ?thesis by (rule hands_over_stay) (use ne r k in simp_all)
  next
    case (Set_context b)
    with e ne r show ?thesis by (intro hands_over_stay) auto
  qed
qed

lemma run_keeps_frame:
  assumes "sched_inv s" and "p \<in> set (ready_list s)" and "run calls s = Inr s'"
    and "never_running p calls s"
  shows "sched_inv s' \<and> tf (mem s' p) = tf (mem s p) \<and> p \<in> set (ready_list s')"
  using assms
proof (induction calls arbitrary: s)
  case Nil
  then show ?case by simp
next
  case (Cons c calls)
  from Cons.prems(3) obtain sm where al: "allowed c s" and e: "exec c s = Inr sm"
    and r: "run calls sm = Inr s'"
    by (auto split: if_splits sum.splits)
  from Cons.prems(4) e have n: "never_running p calls sm" by simp
  then have c: "cur sm \<noteq> p" by (cases calls) simp_all
  from exec_frame[OF Cons.prems(1) al e Cons.prems(2)] c
  have k: "tf (mem sm p) = tf (mem s p)" "p \<in> set (ready_list sm)"
    by (simp_all add: hands_over_def)
  from Cons.IH[OF exec_inv[OF e al Cons.prems(1)] k(2) r n] k(1) show ?case by simp
qed

lemma thread_yield_context:
  assumes y: "thread_yield s = Inr s'"
  shows "intr_context s' = intr_context s"
proof -
  let ?y = "(intr_disable s)\<lparr>ready_list :=
                (if cur s \<noteq> idle_thread s then ready_list s @ [cur s] else ready_list s)\<rparr>"
  from thread_yield_Inr(4)[OF y] obtain s3 where
    d: "do_schedule THREAD_READY ?y = Inr s3"
    and s': "s' = (if cur s3 = cur s then intr_set_level (intr_get_level s) s3 else s3)"
    by blast
  from schedule_context[OF do_schedule_Inr(4)[OF d]]
  have "in_external_intr s3 = in_external_intr s"
    by (simp add: set_status_def drained_def intr_disable_def)
  then show ?thesis
    by (simp add: s' intr_context_def intr_set_level_def intr_enable_def intr_disable_def)
qed

lemma created_frame:
  "tf (created_thread p nm prio function aux new_tid) =
     \<lparr>R = zero_regs\<lparr>rsi := aux, rdi := function\<rparr>, es = SEL_KDSEG, ds = SEL_KDSEG,
      rip = Fn_kernel_thread, cs = SEL_KCSEG, eflags = FLAG_IF,
      rsp = p + PGSIZE - 8, ss = SEL_KDSEG\<rparr>"
  by (simp add: created_thread_def)

lemma first_entry:
  assumes inv: "sched_inv sa" and r: "p \<in> set (ready_list sa)"
    and run: "run calls sa = Inr sb" and n: "never_running p calls sa"
    and al: "allowed c sb" and e: "exec c sb = Inr sc" and c: "cur sc = p"
  shows "tf (mem sb p) = tf (mem sa p)" and "p \<in> set (ready_list sb)"
    and "cpu sc = tf (mem sa p)" and "t_status sc p = THREAD_RUNNING"
proof -
  note k = run_keeps_frame[OF inv r run n]
  from k show "tf (mem sb p) = tf (mem sa p)" "p \<in> set (ready_list sb)" by simp_all
  from k have ib: "sched_inv sb" and rb: "p \<in> set (ready_list sb)" by simp_all
  from exec_frame[OF ib al e rb] c k
  show "cpu sc = tf (mem sa p)" "t_status sc p = THREAD_RUNNING"
    by (simp_all add: hands_over_def)
qed

lemma kernel_thread_exits:
  assumes f: "function \<noteq> 0" and b: "body function aux (intr_enable s) = Inr sf"
    and inv: "sched_inv sf" and n: "\<not> intr_context sf" and r: "ready_list sf \<noteq> []"
  shows "\<exists>se. kernel_thread body function aux s = Inr se \<and> thread_exit sf = Inr se
           \<and> cur se \<noteq> cur sf \<and> t_status se (cur sf) = THREAD_DYING"
proof -
  from thread_exit_ok[OF inv n r] obtain se where e: "thread_exit sf = Inr se" ..
  from f b e have "kernel_thread body function aux s = Inr se"
    by (simp add: kernel_thread_def)
  with e thread_exit_frees(3,4)[OF e] show ?thesis by blast
qed

text \<open>Claim C6: a successful \<^verbatim>\<open>thread_create\<close> leaves in the page of the new thread a saved context whose instruction pointer is the trampoline \<^verbatim>\<open>kernel_thread\<close>, whose first two argument registers (\<^verbatim>\<open>rdi\<close> and \<^verbatim>\<open>rsi\<close>) hold \<^verbatim>\<open>function\<close> and \<^verbatim>\<open>aux\<close>, whose flags have interrupts enabled, whose segment selectors are those of the kernel and whose stack pointer is at the top of the page; the thread is ready, at the tail of the ready queue, and the creator keeps running. From a well-formed state, over every run of scheduler calls in which the new thread is never the running one, the saved context stays as written and the thread stays in the ready queue; the call that then switches to it loads exactly that context into the processor, so that execution continues at \<^verbatim>\<open>kernel_thread\<close> with \<^verbatim>\<open>function\<close> and \<^verbatim>\<open>aux\<close> as its two arguments. \<^verbatim>\<open>kernel_thread\<close> fails its assertion on a null function; otherwise it enables interrupts, calls the function with interrupts on, and when the function returns calls \<^verbatim>\<open>thread_exit\<close>: if the function returns in a well-formed state, outside interrupt context and with another thread ready, the trampoline ends in the switch away from the thread, which is left with the status \<^verbatim>\<open>THREAD_DYING\<close>.\<close>

theorem thread_create_trampoline:
  "(free_pages s = p # ps \<and> p \<noteq> NULL \<and> function \<noteq> 0 \<and> PRI_MIN \<le> prio \<and> prio \<le> PRI_MAX \<longrightarrow>
      (\<exists>sa. thread_create nm prio function aux s = Inr (next_tid s, sa)
         \<and> tf (mem sa p) =
             \<lparr>R = zero_regs\<lparr>rsi := aux, rdi := function\<rparr>, es = SEL_KDSEG, ds = SEL_KDSEG,
              rip = Fn_kernel_thread, cs = SEL_KCSEG, eflags = FLAG_IF,
              rsp = p + PGSIZE - 8, ss = SEL_KDSEG\<rparr>
         \<and> tid (mem sa p) = next_tid s \<and> t_status sa p = THREAD_READY
         \<and> ready_list sa = ready_list s @ [p] \<and> cur sa = cur s \<and> cpu sa = cpu s
         \<and> (sched_inv s \<and> run calls sa = Inr sb \<and> never_running p calls sa
              \<and> allowed c sb \<and> exec c sb = Inr sc \<and> cur sc = p \<longrightarrow>
               tf (mem sb p) = tf (mem sa p) \<and> p \<in> set (ready_list sb)
               \<and> cpu sc = tf (mem sa p)
               \<and> rip (cpu sc) = Fn_kernel_thread
               \<and> rdi (R (cpu sc)) = function \<and> rsi (R (cpu sc)) = aux
               \<and> rsp (cpu sc) = p + PGSIZE - 8
               \<and> intr_get_level sc = INTR_ON \<and> t_status sc p = THREAD_RUNNING)))
   \<and> (function = 0 \<longrightarrow>
        kernel_thread body function aux s = Inl (ASSERT_failed ''function != NULL''))
   \<and> (function \<noteq> 0 \<longrightarrow>
        intr_get_level (intr_enable s) = INTR_ON
        \<and> kernel_thread body function aux s =
            (case body function aux (intr_enable s) of
               Inl e \<Rightarrow> Inl e
             | Inr sf \<Rightarrow> thread_exit sf)
        \<and> (body function aux (intr_enable s) = Inr sf \<and> sched_inv sf \<and> \<not> intr_context sf
             \<and> ready_list sf \<noteq> [] \<longrightarrow>
              (\<exists>se. kernel_thread body function aux s = Inr se \<and> thread_exit sf = Inr se
                 \<and> cur se \<noteq> cur sf \<and> t_status se (cur sf) = THREAD_DYING)))"
proof (intro conjI)
  show "free_pages s = p # ps \<and> p \<noteq> NULL \<and> function \<noteq> 0 \<and> PRI_MIN \<le> prio \<and> prio \<le> PRI_MAX \<longrightarrow>
      (\<exists>sa. thread_create nm prio function aux s = Inr (next_tid s, sa)
         \<and> tf (mem sa p) =
             \<lparr>R = zero_regs\<lparr>rsi := aux, rdi := function\<rparr>, es = SEL_KDSEG, ds = SEL_KDSEG,
              rip = Fn_kernel_thread, cs = SEL_KCSEG, eflags = FLAG_IF,
              rsp = p + PGSIZE - 8, ss = SEL_KDSEG\<rparr>
         \<and> tid (mem sa p) = next_tid s \<and> t_status sa p = THREAD_READY
         \<and> ready_list sa = ready_list s @ [p] \<and> cur sa = cur s \<and> cpu sa = cpu s
         \<and> (sched_inv s \<and> run calls sa = Inr sb \<and> never_running p calls sa
              \<and> allowed c sb \<and> exec c sb = Inr sc \<and> cur sc = p \<longrightarrow>
               tf (mem sb p) = tf (mem sa p) \<and> p \<in> set (ready_list sb)
               \<and> cpu sc = tf (mem sa p)
               \<and> rip (cpu sc) = Fn_kernel_thread
               \<and> rdi (R (cpu sc)) = function \<and> rsi (R (cpu sc)) = aux
               \<and> rsp (cpu sc) = p + PGSIZE - 8
               \<and> intr_get_level sc = INTR_ON \<and> t_status sc p = THREAD_RUNNING))"
  proof
    assume h: "free_pages s = p # ps \<and> p \<noteq> NULL \<and> function \<noteq> 0 \<and> PRI_MIN \<le> prio
      \<and> prio \<le> PRI_MAX"
    define sa where "sa = s\<lparr>free_pages := ps,
            mem := (mem s)(p := created_thread p nm prio function aux (next_tid s)),
            tid_lock := NULL, next_tid := next_tid s + 1,
            ready_list := ready_list s @ [p]\<rparr>"
    from h have cr: "thread_create nm prio function aux s = Inr (next_tid s, sa)"
      unfolding sa_def by (intro thread_create_ok) simp_all
    have fr: "tf (mem sa p) =
             \<lparr>R = zero_regs\<lparr>rsi := aux, rdi := function\<rparr>, es = SEL_KDSEG, ds = SEL_KDSEG,
              rip = Fn_kernel_thread, cs = SEL_KCSEG, eflags = FLAG_IF,
              rsp = p + PGSIZE - 8, ss = SEL_KDSEG\<rparr>"
      by (simp add: sa_def created_frame)
    have g: "tid (mem sa p) = next_tid s" "t_status sa p = THREAD_READY"
      "ready_list sa = ready_list s @ [p]" "cur sa = cur s" "cpu sa = cpu s"
      by (simp_all add: sa_def created_thread_def t_status_def)
    have k: "tf (mem sb p) = tf (mem sa p) \<and> p \<in> set (ready_list sb)
               \<and> cpu sc = tf (mem sa p)
               \<and> rip (cpu sc) = Fn_kernel_thread
               \<and> rdi (R (cpu sc)) = function \<and> rsi (R (cpu sc)) = aux
               \<and> rsp (cpu sc) = p + PGSIZE - 8
               \<and> intr_get_level sc = INTR_ON \<and> t_status sc p = THREAD_RUNNING"
      if x: "sched_inv s \<and> run calls sa = Inr sb \<and> never_running p calls sa
              \<and> allowed c sb \<and> exec c sb = Inr sc \<and> cur sc = p"
    proof -
      from x have inv: "sched_inv s" and r: "run calls sa = Inr sb"
        and n: "never_running p calls sa" and al: "allowed c sb"
        and e: "exec c sb = Inr sc" and c: "cur sc = p" by simp_all
      have ia: "sched_inv sa" by (rule thread_create_inv[OF cr inv])
      have pa: "p \<in> set (ready_list sa)" by (simp add: g)
      note y = first_entry[OF ia pa r n al e c]
      from y(3) fr have cp: "cpu sc =
             \<lparr>R = zero_regs\<lparr>rsi := aux, rdi := function\<rparr>, es = SEL_KDSEG, ds = SEL_KDSEG,
              rip = Fn_kernel_thread, cs = SEL_KCSEG, eflags = FLAG_IF,
              rsp = p + PGSIZE - 8, ss = SEL_KDSEG\<rparr>" by simp
      have "intr_get_level sc = INTR_ON"
        by (simp add: intr_get_level_def cp FLAG_IF_nz)
      moreover have "rip (cpu sc) = Fn_kernel_thread" "rdi (R (cpu sc)) = function"
        "rsi (R (cpu sc)) = aux" "rsp (cpu sc) = p + PGSIZE - 8"
        by (simp_all add: cp)
      ultimately show ?thesis using y by simp
    qed
    from cr fr g k show "\<exists>sa. thread_create nm prio function aux s = Inr (next_tid s, sa)
         \<and> tf (mem sa p) =
             \<lparr>R = zero_regs\<lparr>rsi := aux, rdi := function\<rparr>, es = SEL_KDSEG, ds = SEL_KDSEG,
              rip = Fn_kernel_thread, cs = SEL_KCSEG, eflags = FLAG_IF,
              rsp = p + PGSIZE - 8, ss = SEL_KDSEG\<rparr>
         \<and> tid (mem sa p) = next_tid s \<and> t_status sa p = THREAD_READY
         \<and> ready_list sa = ready_list s @ [p] \<and> cur sa = cur s \<and> cpu sa = cpu s
         \<and> (sched_inv s \<and> run calls sa = Inr sb \<and> never_running p calls sa
              \<and> allowed c sb \<and> exec c sb = Inr sc \<and> cur sc = p \<longrightarrow>
               tf (mem sb p) = tf (mem sa p) \<and> p \<in> set (ready_list sb)
               \<and> cpu sc = tf (mem sa p)
               \<and> rip (cpu sc) = Fn_kernel_thread
               \<and> rdi (R (cpu sc)) = function \<and> rsi (R (cpu sc)) = aux
               \<and> rsp (cpu sc) = p + PGSIZE - 8
               \<and> intr_get_level sc = INTR_ON \<and> t_status sc p = THREAD_RUNNING)"
      by blast
  qed
  show "function = 0 \<longrightarrow>
        kernel_thread body function aux s = Inl (ASSERT_failed ''function != NULL'')"
    by (simp add: kernel_thread_def)
  show "function \<noteq> 0 \<longrightarrow>
        intr_get_level (intr_enable s) = INTR_ON
        \<and> kernel_thread body function aux s =
            (case body function aux (intr_enable s) of
               Inl e \<Rightarrow> Inl e
             | Inr sf \<Rightarrow> thread_exit sf)
        \<and> (body function aux (intr_enable s) = Inr sf \<and> sched_inv sf \<and> \<not> intr_context sf
             \<and> ready_list sf \<noteq> [] \<longrightarrow>
              (\<exists>se. kernel_thread body function aux s = Inr se \<and> thread_exit sf = Inr se
                 \<and> cur se \<noteq> cur sf \<and> t_status se (cur sf) = THREAD_DYING))"
    using kernel_thread_exits[of "function" body aux s sf]
    by (simp add: kernel_thread_def intr_get_level_enable)
qed

theorem thread_create_trampoline_witness:
  "free_pages ex_state = 0x5000 # [0x6000] \<and> (0x5000 :: addr) \<noteq> NULL
   \<and> (0x400000 :: 64 word) \<noteq> 0 \<and> PRI_MIN \<le> 31 \<and> 31 \<le> PRI_MAX \<and> sched_inv ex_state
   \<and> (\<exists>sa sb sc se.
        thread_create ''worker'' 31 0x400000 7 ex_state = Inr (5, sa)
        \<and> ready_list sa = [0x3000, 0x5000]
        \<and> run [Yield] sa = Inr sb \<and> never_running 0x5000 [Yield] sa \<and> cur sb = 0x3000
        \<and> allowed Yield sb \<and> exec Yield sb = Inr sc \<and> cur sc = 0x5000
        \<and> rip (cpu sc) = Fn_kernel_thread
        \<and> rdi (R (cpu sc)) = 0x400000 \<and> rsi (R (cpu sc)) = 7
        \<and> rsp (cpu sc) = 0x5ff8
        \<and> intr_get_level sc = INTR_ON
        \<and> kernel_thread (\<lambda>f a st. Inr st) 0x400000 7 sc = Inr se
        \<and> cur se \<noteq> 0x5000 \<and> t_status se 0x5000 = THREAD_DYING)"
proof -
  let ?b = "\<lambda>(f :: 64 word) (a :: 64 word) (st :: sched). (Inr st :: halt + sched)"
  note i = sched_inv_ex_state
  have h: "free_pages ex_state = 0x5000 # [0x6000]" "(0x5000 :: addr) \<noteq> NULL"
    "(0x400000 :: 64 word) \<noteq> 0" "PRI_MIN \<le> 31" "31 \<le> PRI_MAX"
    by (simp_all add: ex_defs PRI_MIN_def PRI_MAX_def)
  have nt: "next_tid ex_state = 5" by (simp add: ex_defs)
  define sa where "sa = ex_state\<lparr>free_pages := [0x6000],
            mem := (mem ex_state)(0x5000 :=
                     created_thread 0x5000 ''worker'' 31 0x400000 7 (next_tid ex_state)),
            tid_lock := NULL, next_tid := next_tid ex_state + 1,
            ready_list := ready_list ex_state @ [0x5000]\<rparr>"
  from thread_create_ok[OF h, of "''worker''" 7]
  have cr: "thread_create ''worker'' 31 0x400000 7 ex_state = Inr (5, sa)"
    by (simp add: sa_def nt)
  have fa: "cur sa = 0x1000" "ready_list sa = [0x3000, 0x5000]" "idle_thread sa = 0x2000"
    "\<not> intr_context sa"
    by (simp_all add: sa_def ex_state_def boot_def intr_context_def)
  have ia: "sched_inv sa" by (rule thread_create_inv[OF cr i])
  from thread_yield_ok[OF ia fa(4)] obtain sb where y1: "thread_yield sa = Inr sb" ..
  from thread_yield_frees(4)[OF y1] have fb: "cur sb = 0x3000" "ready_list sb = [0x5000, 0x1000]"
    by (simp_all add: fa)
  have gb: "idle_thread sb = 0x2000" "\<not> intr_context sb"
    using thread_yield_frees(3)[OF y1] thread_yield_context[OF y1] fa by simp_all
  have ib: "sched_inv sb" by (rule thread_yield_inv[OF y1 ia])
  have r: "run [Yield] sa = Inr sb" using y1 by simp
  have n: "never_running 0x5000 [Yield] sa" using y1 fa fb by simp
  from thread_yield_ok[OF ib gb(2)] obtain sc where y2: "thread_yield sb = Inr sc" ..
  from thread_yield_frees(4)[OF y2] have fc: "cur sc = 0x5000" "ready_list sc = [0x1000, 0x3000]"
    by (simp_all add: fb gb)
  have gc: "\<not> intr_context sc" using thread_yield_context[OF y2] gb by simp
  have ic: "sched_inv sc" by (rule thread_yield_inv[OF y2 ib])
  have al: "allowed Yield sb" by simp
  have e: "exec Yield sb = Inr sc" using y2 by simp
  from thread_create_trampoline[of ex_state "0x5000" "[0x6000]" "0x400000" 31 "''worker''" 7
      "[Yield]" sb Yield sc ?b sc] h nt
  obtain sx where x: "thread_create ''worker'' 31 0x400000 7 ex_state = Inr (5, sx)"
    and k: "sched_inv ex_state \<and> run [Yield] sx = Inr sb \<and> never_running 0x5000 [Yield] sx
              \<and> allowed Yield sb \<and> exec Yield sb = Inr sc \<and> cur sc = 0x5000 \<longrightarrow>
               rip (cpu sc) = Fn_kernel_thread
               \<and> rdi (R (cpu sc)) = 0x400000 \<and> rsi (R (cpu sc)) = 7
               \<and> rsp (cpu sc) = 0x5000 + PGSIZE - 8
               \<and> intr_get_level sc = INTR_ON"
    by auto
  from x cr have "sx = sa" by simp
  with k i r n al e fc(1) have c: "rip (cpu sc) = Fn_kernel_thread"
    "rdi (R (cpu sc)) = 0x400000" "rsi (R (cpu sc)) = 7" "rsp (cpu sc) = 0x5ff8"
    "intr_get_level sc = INTR_ON"
    by (simp_all add: PGSIZE_def)
  have je: "sched_inv (intr_enable sc)" "\<not> intr_context (intr_enable sc)"
    "ready_list (intr_enable sc) \<noteq> []" "cur (intr_enable sc) = 0x5000"
    using ic gc fc by (simp_all add: sched_inv_intr_enable) (simp_all add: intr_enable_def intr_context_def)
  from thread_create_trampoline[of sc "0x5000" "[]" "0x400000" 31 "[]" 7 "[]" sc Yield sc
      ?b "intr_enable sc"] h(3)
  have z: "sched_inv (intr_enable sc) \<and> \<not> intr_context (intr_enable sc)
      \<and> ready_list (intr_enable sc) \<noteq> [] \<longrightarrow>
      (\<exists>se. kernel_thread ?b 0x400000 7 sc = Inr se
         \<and> cur se \<noteq> cur (intr_enable sc)
         \<and> t_status se (cur (intr_enable sc)) = THREAD_DYING)"
    by blast
  with je obtain se where "kernel_thread ?b 0x400000 7 sc = Inr se" "cur se \<noteq> 0x5000"
    "t_status se 0x5000 = THREAD_DYING"
    by auto
  with h i cr fa(2) r n fb(1) al e fc(1) c show ?thesis by blast
qed

end
